theory Spec2Isabelle
  imports Complex_Main "HOL-Library.Word" "HOL-Library.Monad_Syntax"
begin

unbundle bit_operations_syntax

section \<open>Data model of main.c\<close>

text \<open>
  A C \<open>char\<close> is modelled by its bit pattern, an 8-bit word.  Whether plain \<open>char\<close> is a
  signed type is implementation-defined; the one place of main.c where the answer shows
  (\<open>int c = *str++\<close> in \<open>hash_function\<close>) takes it as the parameter \<open>cs\<close>
  (\<open>True\<close>: plain \<open>char\<close> is signed), which is threaded through the callers.

  A text buffer (\<open>char original_text[MAX_FILE_SIZE]\<close>) is the list of all bytes of the array.
  A function that scans it for the terminating NUL and runs off the end of the array returns
  \<open>None\<close>: in C the read is out of bounds.

  The two four-byte arrays \<open>char gram[N_GRAM + 1]\<close> (the local of \<open>generate_ngrams\<close> and the
  member of \<open>NGramNode\<close>) are modelled by their first \<open>N_GRAM\<close> bytes.  Both writers store
  \<open>'\0'\<close> into byte \<open>N_GRAM\<close> right after filling the array, so a scan of such an array stops
  at the first NUL among the listed bytes or else at the end of the list.

  \<open>int\<close> counters are modelled by unbounded \<open>int\<close> and \<open>nat\<close>; lemma \<open>driver_counts_fit_int\<close>
  below shows that the counts and sums stay below \<open>2^24\<close> for every buffer the driver can
  produce, so no \<open>int\<close> of the C overflows.

  The \<open>float\<close> score is modelled by IEEE 754 binary32 arithmetic, rounding to nearest with
  ties to even (section Single-precision arithmetic).
\<close>

type_synonym byte = "8 word"

definition MAX_FILE_SIZE :: nat where
  "MAX_FILE_SIZE = 1000000"

definition N_GRAM :: nat where
  "N_GRAM = 3"

definition HASH_TABLE_SIZE :: int where
  "HASH_TABLE_SIZE = 100003"

text \<open>\<open>struct NGramNode\<close>; the \<open>next\<close> pointer is the tail of the list that holds the node.\<close>

record NGramNode =
  node_gram :: "byte list"
  node_count :: int

text \<open>\<open>HashTable\<close>: the bucket array (each bucket a chain, head first) and the field \<open>size\<close>.\<close>

record HashTable =
  ht_table :: "NGramNode list list"
  ht_size :: int

section \<open>C library functions used by main.c\<close>

text \<open>The string a \<open>char *\<close> points to: the bytes before the first NUL.\<close>

definition c_str :: "byte list \<Rightarrow> byte list" where
  "c_str buf = takeWhile (\<lambda>c. c \<noteq> 0) buf"

text \<open>\<open>strlen\<close> on a buffer; \<open>None\<close> when the buffer holds no NUL.\<close>

fun strlen :: "byte list \<Rightarrow> nat option" where
  "strlen [] = None"
| "strlen (c # str) = (if c = 0 then Some 0 else map_option Suc (strlen str))"

text \<open>
  \<open>strncpy(dest, src, n)\<close>: the \<open>n\<close> bytes written to \<open>dest\<close>, that is the bytes of \<open>src\<close>
  up to its first NUL, at most \<open>n\<close> of them, padded with NUL bytes.
\<close>

definition strncpy :: "nat \<Rightarrow> byte list \<Rightarrow> byte list" where
  "strncpy n src = (let s = c_str (take n src) in s @ replicate (n - length s) 0)"

text \<open>\<open>strcmp(a, b) == 0\<close>.\<close>

definition strcmp_eq :: "byte list \<Rightarrow> byte list \<Rightarrow> bool" where
  "strcmp_eq a b = (c_str a = c_str b)"

text \<open>\<open>isalnum\<close> in the "C" locale (main.c never calls \<open>setlocale\<close>).\<close>

definition isalnum :: "byte \<Rightarrow> bool" where
  "isalnum c = ((0x30 \<le> c \<and> c \<le> 0x39) \<or> (0x41 \<le> c \<and> c \<le> 0x5A) \<or> (0x61 \<le> c \<and> c \<le> 0x7A))"

section \<open>Normalizer\<close>

text \<open>The test of \<open>remove_punctuation\<close>: \<open>isalnum(c) || c == ' ' || (c & 0x80)\<close>.\<close>

definition keep_char :: "byte \<Rightarrow> bool" where
  "keep_char c = (isalnum c \<or> c = 0x20 \<or> c AND 0x80 \<noteq> 0)"

function remove_punctuation_loop :: "nat \<Rightarrow> nat \<Rightarrow> byte list \<Rightarrow> byte list option" where
  "remove_punctuation_loop src dst str =
     (if length str \<le> src then None
      else if str ! src = 0 then Some (str[dst := 0])
      else if keep_char (str ! src)
        then remove_punctuation_loop (Suc src) (Suc dst) (str[dst := str ! src])
        else remove_punctuation_loop (Suc src) dst str)"
  by pat_completeness auto
termination
  by (relation "measure (\<lambda>(src, dst, str). length str - src)") auto

declare remove_punctuation_loop.simps [simp del]

definition remove_punctuation :: "byte list \<Rightarrow> byte list option" where
  "remove_punctuation str = remove_punctuation_loop 0 0 str"

function to_lower_case_loop :: "nat \<Rightarrow> byte list \<Rightarrow> byte list option" where
  "to_lower_case_loop i str =
     (if length str \<le> i then None
      else if str ! i = 0 then Some str
      else if 0x41 \<le> str ! i \<and> str ! i \<le> 0x5A
        then to_lower_case_loop (Suc i) (str[i := str ! i + 32])
        else to_lower_case_loop (Suc i) str)"
  by pat_completeness auto
termination
  by (relation "measure (\<lambda>(i, str). length str - i)") auto

declare to_lower_case_loop.simps [simp del]

definition to_lower_case :: "byte list \<Rightarrow> byte list option" where
  "to_lower_case str = to_lower_case_loop 0 str"

section \<open>Hash table\<close>

definition create_hash_table :: "int \<Rightarrow> HashTable" where
  "create_hash_table n = \<lparr>ht_table = replicate (nat n) [], ht_size = n\<rparr>"

text \<open>\<open>int c = *str++\<close>, then converted to \<open>unsigned int\<close> by the addition.\<close>

definition char_to_uint :: "bool \<Rightarrow> byte \<Rightarrow> 32 word" where
  "char_to_uint cs c = (if cs then scast c else ucast c)"

fun hash_loop :: "bool \<Rightarrow> byte list \<Rightarrow> 32 word \<Rightarrow> 32 word" where
  "hash_loop cs [] hash = hash"
| "hash_loop cs (c # str) hash =
     (if c = 0 then hash
      else hash_loop cs str ((push_bit 5 hash + hash) + char_to_uint cs c))"

text \<open>
  \<open>hash % table_size\<close> is computed in \<open>unsigned int\<close>, to which the \<open>int\<close> table size is
  converted; with \<open>table_size = 0\<close> the C divides by zero (\<open>None\<close>).
\<close>

definition hash_function :: "bool \<Rightarrow> byte list \<Rightarrow> int \<Rightarrow> 32 word option" where
  "hash_function cs str table_size =
     (if table_size = 0 then None
      else Some (hash_loop cs str 5381 mod word_of_int table_size))"

text \<open>
  The \<open>while\<close> loop of \<open>addhash\<close>: \<open>Some\<close> the chain with the count of the first node holding
  \<open>gram\<close> incremented, \<open>None\<close> when the loop reaches the end of the chain.
\<close>

fun addhash_find :: "byte list \<Rightarrow> NGramNode list \<Rightarrow> NGramNode list option" where
  "addhash_find g [] = None"
| "addhash_find g (current # rest) =
     (if strcmp_eq (node_gram current) g
      then Some (current\<lparr>node_count := node_count current + 1\<rparr> # rest)
      else map_option ((#) current) (addhash_find g rest))"

text \<open>An access \<open>ht->table[index]\<close> outside the bucket array is \<open>None\<close>.\<close>

definition addhash :: "bool \<Rightarrow> HashTable \<Rightarrow> byte list \<Rightarrow> HashTable option" where
  "addhash cs ht g =
     (case hash_function cs g (ht_size ht) of
        None \<Rightarrow> None
      | Some index \<Rightarrow>
          if unat index < length (ht_table ht) then
            (case addhash_find g (ht_table ht ! unat index) of
               Some chain \<Rightarrow> Some (ht\<lparr>ht_table := (ht_table ht)[unat index := chain]\<rparr>)
             | None \<Rightarrow>
                 Some (ht\<lparr>ht_table := (ht_table ht)[unat index :=
                   \<lparr>node_gram = strncpy N_GRAM g, node_count = 1\<rparr> # ht_table ht ! unat index]\<rparr>))
          else None)"

section \<open>ShingleSet construction\<close>

function generate_ngrams_loop :: "bool \<Rightarrow> byte list \<Rightarrow> int \<Rightarrow> nat \<Rightarrow> HashTable \<Rightarrow> HashTable option" where
  "generate_ngrams_loop cs text len i ht =
     (if int i \<le> len - int N_GRAM
      then (case addhash cs ht (strncpy N_GRAM (drop i text)) of
              None \<Rightarrow> None
            | Some ht' \<Rightarrow> generate_ngrams_loop cs text len (Suc i) ht')
      else Some ht)"
  by pat_completeness auto
termination
  by (relation "measure (\<lambda>(cs, text, len, i, ht). nat (len - int N_GRAM + 1 - int i))") auto

declare generate_ngrams_loop.simps [simp del]

definition generate_ngrams :: "bool \<Rightarrow> byte list \<Rightarrow> HashTable \<Rightarrow> HashTable option" where
  "generate_ngrams cs text ht =
     (case strlen text of
        None \<Rightarrow> None
      | Some len \<Rightarrow> generate_ngrams_loop cs text (int len) 0 ht)"

section \<open>Single-precision arithmetic\<close>

text \<open>
  The score of main.c is a \<open>float\<close>.  A \<open>float\<close> value is modelled by the real number it
  denotes, and the two operations of \<open>(float)intersection / union_total\<close> by IEEE 754
  binary32 arithmetic in its default rounding mode, to nearest with ties to even: the
  conversion of an \<open>int\<close> and the division of two \<open>float\<close>s each return the exact result
  rounded to 24 significant bits.  The operands come from 32-bit \<open>int\<close>s, so a quotient that
  is not 0 has a magnitude between \<open>2^-31\<close> and \<open>2^31\<close>: the exponent stays inside the normal
  range of binary32, and neither overflow nor subnormal numbers are modelled.
\<close>

text \<open>
  The exponent \<open>e\<close> of a positive number, \<open>2^e \<le> x < 2^(e+1)\<close>, found by halving or doubling.
\<close>

function float_exponent :: "real \<Rightarrow> int" where
  "float_exponent x =
     (if x \<le> 0 then 0
      else if 2 \<le> x then float_exponent (x / 2) + 1
      else if x < 1 then float_exponent (2 * x) - 1
      else 0)"
  by pat_completeness auto
termination
proof (relation "measure (\<lambda>x. 2 * nat \<lceil>1 / x\<rceil> + nat \<lfloor>x\<rfloor>)", goal_cases)
  case 1 show ?case by simp
next
  case (2 x)
  then have x: "2 \<le> x" by simp
  have a: "\<lceil>1 / (x / 2)\<rceil> = 1" using x by (simp add: ceiling_eq_iff)
  have b: "\<lceil>1 / x\<rceil> = 1" using x by (simp add: ceiling_eq_iff)
  have "\<lfloor>x / 2\<rfloor> < \<lfloor>x\<rfloor>" using x by linarith
  moreover have "0 \<le> \<lfloor>x / 2\<rfloor>" using x by simp
  ultimately have "nat \<lfloor>x / 2\<rfloor> < nat \<lfloor>x\<rfloor>" by linarith
  then show ?case unfolding in_measure a b by simp
next
  case (3 x)
  then have x: "0 < x" "x < 1" by simp_all
  have f: "\<lfloor>x\<rfloor> = 0" using x by (simp add: floor_eq_iff)
  show ?case
  proof (cases "x < 1 / 2")
    case True
    then have g: "\<lfloor>2 * x\<rfloor> = 0" using x by (simp add: floor_eq_iff)
    have y: "2 < 1 / x" using True x by (simp add: field_simps)
    have "1 / (2 * x) = (1 / x) / 2" by simp
    then have "1 / (2 * x) \<le> 1 / x - 1" using y by linarith
    then have "\<lceil>1 / (2 * x)\<rceil> \<le> \<lceil>1 / x - 1\<rceil>" by (rule ceiling_mono)
    then have "\<lceil>1 / (2 * x)\<rceil> < \<lceil>1 / x\<rceil>" by simp
    moreover have "0 < \<lceil>1 / x\<rceil>" using y by linarith
    ultimately have "nat \<lceil>1 / (2 * x)\<rceil> < nat \<lceil>1 / x\<rceil>" by linarith
    then show ?thesis unfolding in_measure f g by simp
  next
    case False
    then have g: "\<lfloor>2 * x\<rfloor> = 1" using x by (simp add: floor_eq_iff)
    have "1 < 1 / x" "1 / x \<le> 2" using False x by (simp_all add: field_simps)
    then have a: "\<lceil>1 / x\<rceil> = 2" by (simp add: ceiling_eq_iff)
    have "1 / (2 * x) = (1 / x) / 2" by simp
    then have "1 / 2 < 1 / (2 * x)" "1 / (2 * x) \<le> 1" using \<open>1 < 1 / x\<close> \<open>1 / x \<le> 2\<close> by linarith+
    then have b: "\<lceil>1 / (2 * x)\<rceil> = 1" using x by (simp add: ceiling_eq_iff)
    show ?thesis unfolding in_measure f g a b by simp
  qed
qed

declare float_exponent.simps [simp del]

text \<open>Rounding to the nearest integer, a tie going to the even one.\<close>

definition round_half_even :: "real \<Rightarrow> int" where
  "round_half_even x =
     (let f = \<lfloor>x\<rfloor>; d = x - of_int f
      in if d < 1 / 2 then f
         else if 1 / 2 < d then f + 1
         else if even f then f else f + 1)"

text \<open>
  The nearest number with 24 significant bits: the nearest multiple of the unit in the last
  place of \<open>x\<close>, a tie going to the even multiple.
\<close>

definition round_to_float :: "real \<Rightarrow> real" where
  "round_to_float x =
     (if x = 0 then 0
      else (let ulp = 2 powi (float_exponent \<bar>x\<bar> - 23)
            in of_int (round_half_even (x / ulp)) * ulp))"

text \<open>The conversion \<open>(float)i\<close> of an \<open>int\<close>.\<close>

definition int_to_float :: "int \<Rightarrow> real" where
  "int_to_float i = round_to_float (of_int i)"

text \<open>The division \<open>a / b\<close> of two \<open>float\<close>s; main.c divides only when \<open>b\<close> is not 0.\<close>

definition float_div :: "real \<Rightarrow> real \<Rightarrow> real" where
  "float_div a b = round_to_float (a / b)"

section \<open>SimilarityEngine\<close>

text \<open>The inner \<open>while (temp != NULL)\<close> of \<open>get_intersection_count\<close>: what it adds.\<close>

fun intersection_find :: "NGramNode \<Rightarrow> NGramNode list \<Rightarrow> int" where
  "intersection_find current [] = 0"
| "intersection_find current (temp # rest) =
     (if strcmp_eq (node_gram current) (node_gram temp)
      then (if node_count current < node_count temp then node_count current else node_count temp)
      else intersection_find current rest)"

text \<open>The \<open>while (current != NULL)\<close> loop over one chain of the first table.\<close>

fun intersection_chain :: "bool \<Rightarrow> HashTable \<Rightarrow> NGramNode list \<Rightarrow> int \<Rightarrow> int option" where
  "intersection_chain cs ht2 [] intersection = Some intersection"
| "intersection_chain cs ht2 (current # rest) intersection =
     (case hash_function cs (node_gram current) (ht_size ht2) of
        None \<Rightarrow> None
      | Some index \<Rightarrow>
          if unat index < length (ht_table ht2)
          then intersection_chain cs ht2 rest
                 (intersection + intersection_find current (ht_table ht2 ! unat index))
          else None)"

function get_intersection_loop :: "bool \<Rightarrow> HashTable \<Rightarrow> HashTable \<Rightarrow> nat \<Rightarrow> int \<Rightarrow> int option" where
  "get_intersection_loop cs ht1 ht2 i intersection =
     (if int i < ht_size ht1
      then (if i < length (ht_table ht1)
            then (case intersection_chain cs ht2 (ht_table ht1 ! i) intersection of
                    None \<Rightarrow> None
                  | Some intersection' \<Rightarrow> get_intersection_loop cs ht1 ht2 (Suc i) intersection')
            else None)
      else Some intersection)"
  by pat_completeness auto
termination
  by (relation "measure (\<lambda>(cs, ht1, ht2, i, intersection). nat (ht_size ht1 - int i))") auto

declare get_intersection_loop.simps [simp del]

definition get_intersection_count :: "bool \<Rightarrow> HashTable \<Rightarrow> HashTable \<Rightarrow> int option" where
  "get_intersection_count cs ht1 ht2 = get_intersection_loop cs ht1 ht2 0 0"

fun union_chain :: "NGramNode list \<Rightarrow> int \<Rightarrow> int" where
  "union_chain [] union_count = union_count"
| "union_chain (current # rest) union_count = union_chain rest (union_count + node_count current)"

function get_union_loop :: "HashTable \<Rightarrow> nat \<Rightarrow> int \<Rightarrow> int option" where
  "get_union_loop ht i union_count =
     (if int i < ht_size ht
      then (if i < length (ht_table ht)
            then get_union_loop ht (Suc i) (union_chain (ht_table ht ! i) union_count)
            else None)
      else Some union_count)"
  by pat_completeness auto
termination
  by (relation "measure (\<lambda>(ht, i, union_count). nat (ht_size ht - int i))") auto

declare get_union_loop.simps [simp del]

definition get_union_count :: "HashTable \<Rightarrow> HashTable \<Rightarrow> int option" where
  "get_union_count ht1 ht2 =
     (case get_union_loop ht1 0 0 of
        None \<Rightarrow> None
      | Some union_count \<Rightarrow> get_union_loop ht2 0 union_count)"

text \<open>
  \<open>(float)intersection / union_total\<close>: the cast converts \<open>intersection\<close>, the usual
  arithmetic conversions convert \<open>union_total\<close>, and the division is one of \<open>float\<close>s.
\<close>

definition calculate_jaccard_similarity :: "bool \<Rightarrow> HashTable \<Rightarrow> HashTable \<Rightarrow> real option" where
  "calculate_jaccard_similarity cs ht_original ht_plagiarized =
     (case get_intersection_count cs ht_original ht_plagiarized of
        None \<Rightarrow> None
      | Some intersection \<Rightarrow>
          (case get_union_count ht_original ht_plagiarized of
             None \<Rightarrow> None
           | Some union_count \<Rightarrow>
               (let union_total = union_count - intersection in
                if union_total = 0 then Some 0
                else Some (float_div (int_to_float intersection) (int_to_float union_total)))))"

section \<open>Driver\<close>

text \<open>
  \<open>char text[MAX_FILE_SIZE]; len = fread(text, 1, MAX_FILE_SIZE - 1, file); text[len] = '\0'\<close>
  for a file that could be opened.  The array is not initialised: \<open>junk i\<close> is the byte that
  happens to be at index \<open>i\<close> before the read.
\<close>

definition read_file :: "(nat \<Rightarrow> byte) \<Rightarrow> byte list \<Rightarrow> byte list \<times> nat" where
  "read_file junk file =
     (let text = map junk [0..<MAX_FILE_SIZE];
          len = min (length file) (MAX_FILE_SIZE - 1);
          text = take len file @ drop len text
      in (text[len := 0], len))"

text \<open>Lines 95 to 135 of \<open>main\<close>: from the contents of the two files to \<open>similarity\<close>.\<close>

definition main_similarity :: "bool \<Rightarrow> (nat \<Rightarrow> byte) \<Rightarrow> (nat \<Rightarrow> byte) \<Rightarrow> byte list \<Rightarrow> byte list \<Rightarrow> real option" where
  "main_similarity cs junk1 junk2 original_file plagiarized_file =
     do {
       let original_text = fst (read_file junk1 original_file);
       let plagiarized_text = fst (read_file junk2 plagiarized_file);
       original_text \<leftarrow> to_lower_case original_text;
       plagiarized_text \<leftarrow> to_lower_case plagiarized_text;
       original_text \<leftarrow> remove_punctuation original_text;
       plagiarized_text \<leftarrow> remove_punctuation plagiarized_text;
       let ht_original = create_hash_table HASH_TABLE_SIZE;
       let ht_plagiarized = create_hash_table HASH_TABLE_SIZE;
       ht_original \<leftarrow> generate_ngrams cs original_text ht_original;
       ht_plagiarized \<leftarrow> generate_ngrams cs plagiarized_text ht_plagiarized;
       calculate_jaccard_similarity cs ht_original ht_plagiarized
     }"

section \<open>Auxiliary definitions for the proofs\<close>

text \<open>What one step of \<open>to_lower_case\<close> stores at the index it visits.\<close>

definition lower_char :: "byte \<Rightarrow> byte" where
  "lower_char c = (if 0x41 \<le> c \<and> c \<le> 0x5A then c + 32 else c)"

definition node_key :: "NGramNode \<Rightarrow> byte list" where
  "node_key e = c_str (node_gram e)"

definition entries :: "HashTable \<Rightarrow> NGramNode list" where
  "entries ht = concat (ht_table ht)"

definition key_count :: "byte list \<Rightarrow> NGramNode list \<Rightarrow> int" where
  "key_count k es = (\<Sum>e\<leftarrow>es. if node_key e = k then node_count e else 0)"

definition shingle_count :: "HashTable \<Rightarrow> byte list \<Rightarrow> int" where
  "shingle_count ht k = key_count k (entries ht)"

definition total_count :: "HashTable \<Rightarrow> int" where
  "total_count ht = (\<Sum>e\<leftarrow>entries ht. node_count e)"

definition bucket_index :: "bool \<Rightarrow> int \<Rightarrow> byte list \<Rightarrow> nat" where
  "bucket_index cs n g = unat (hash_loop cs g 5381 mod word_of_int n)"

definition ht_inv :: "bool \<Rightarrow> HashTable \<Rightarrow> bool" where
  "ht_inv cs ht \<longleftrightarrow>
     0 < ht_size ht \<and> ht_size ht < 2 ^ 31 \<and>
     length (ht_table ht) = nat (ht_size ht) \<and>
     (\<forall>i < length (ht_table ht). \<forall>e \<in> set (ht_table ht ! i).
        bucket_index cs (ht_size ht) (node_key e) = i) \<and>
     distinct (map node_key (entries ht)) \<and>
     (\<forall>e \<in> set (entries ht). 0 < node_count e)"

definition match_count :: "bool \<Rightarrow> HashTable \<Rightarrow> NGramNode \<Rightarrow> int" where
  "match_count cs ht2 e =
     intersection_find e (ht_table ht2 ! bucket_index cs (ht_size ht2) (node_key e))"

text \<open>The calls of \<open>addhash\<close> made for a list of grams, in order.\<close>

fun addhash_all :: "bool \<Rightarrow> HashTable \<Rightarrow> byte list list \<Rightarrow> HashTable option" where
  "addhash_all cs ht [] = Some ht"
| "addhash_all cs ht (g # gs) =
     (case addhash cs ht g of None \<Rightarrow> None | Some ht' \<Rightarrow> addhash_all cs ht' gs)"

text \<open>
  Following the spec's words: the windows of length \<open>n\<close> at every byte offset from 0 to
  \<open>len(text) - n\<close> inclusive, none when \<open>len(text) < n\<close>.
\<close>

definition spec_windows :: "nat \<Rightarrow> byte list \<Rightarrow> byte list list" where
  "spec_windows n text = map (\<lambda>i. take n (drop i text)) [0..<length text + 1 - n]"

text \<open>The mapping from shingle to count that a table stores.\<close>

definition shingle_set_of :: "HashTable \<Rightarrow> (byte list \<rightharpoonup> int)" where
  "shingle_set_of ht = map_of (map (\<lambda>e. (node_key e, node_count e)) (entries ht))"

text \<open>
  Following the spec's words: the count of the shingle in the mapping is incremented, and
  the shingle is inserted with count 1 if absent.
\<close>

definition spec_insert :: "(byte list \<rightharpoonup> int) \<Rightarrow> byte list \<Rightarrow> (byte list \<rightharpoonup> int)" where
  "spec_insert m k = m(k \<mapsto> (case m k of None \<Rightarrow> 1 | Some c \<Rightarrow> c + 1))"

definition spec_build :: "nat \<Rightarrow> byte list \<Rightarrow> (byte list \<rightharpoonup> int)" where
  "spec_build n text = foldl spec_insert Map.empty (spec_windows n text)"

text \<open>
  Following the spec's words (section 4.3): Intersection is the sum over every shingle key
  present in both A and B of the minimum of the two counts; Union is
  \<open>total(A) + total(B) - Intersection\<close>, where \<open>total(X)\<close> is the sum of all counts in X;
  Score is \<open>Intersection / Union\<close> if \<open>Union > 0\<close>, else 0.
\<close>

definition spec_intersection :: "(byte list \<rightharpoonup> int) \<Rightarrow> (byte list \<rightharpoonup> int) \<Rightarrow> int" where
  "spec_intersection A B = (\<Sum>k \<in> dom A \<inter> dom B. min (the (A k)) (the (B k)))"

definition spec_total :: "(byte list \<rightharpoonup> int) \<Rightarrow> int" where
  "spec_total A = (\<Sum>k \<in> dom A. the (A k))"

definition spec_union :: "(byte list \<rightharpoonup> int) \<Rightarrow> (byte list \<rightharpoonup> int) \<Rightarrow> int" where
  "spec_union A B = spec_total A + spec_total B - spec_intersection A B"

definition spec_score :: "(byte list \<rightharpoonup> int) \<Rightarrow> (byte list \<rightharpoonup> int) \<Rightarrow> real" where
  "spec_score A B =
     (if 0 < spec_union A B
      then real_of_int (spec_intersection A B) / real_of_int (spec_union A B)
      else 0)"

text \<open>
  The score in the arithmetic of the code: the specified Intersection and Union, converted to
  \<open>float\<close> and divided as \<open>float\<close>s.
\<close>

definition float_score :: "(byte list \<rightharpoonup> int) \<Rightarrow> (byte list \<rightharpoonup> int) \<Rightarrow> real" where
  "float_score A B =
     (if 0 < spec_union A B
      then float_div (int_to_float (spec_intersection A B)) (int_to_float (spec_union A B))
      else 0)"

text \<open>The string left in a buffer by \<open>to_lower_case\<close> followed by \<open>remove_punctuation\<close>.\<close>

definition normalize_string :: "byte list \<Rightarrow> byte list" where
  "normalize_string s = filter keep_char (map lower_char s)"

text \<open>
  Following the spec's words (section 4.1): an ASCII uppercase letter is mapped to lowercase
  by the fixed offset; any other byte with value at most 0x7F is kept when it is an ASCII
  alphanumeric or a space and dropped otherwise; a byte with the high bit set is kept verbatim.
\<close>

definition spec_normalize_byte :: "byte \<Rightarrow> byte list" where
  "spec_normalize_byte c =
     (if 0x41 \<le> c \<and> c \<le> 0x5A then [c + 32]
      else if c \<le> 0x7F then (if isalnum c \<or> c = 0x20 then [c] else [])
      else [c])"

definition spec_normalize :: "byte list \<Rightarrow> byte list" where
  "spec_normalize s = concat (map spec_normalize_byte s)"

text \<open>
  The data of the worked example: the strings \<open>abcabc\<close> and \<open>abcabd\<close>, and the tables that
  \<open>generate_ngrams\<close> builds from them with 2 and with 3 buckets (plain \<open>char\<close> signed).
\<close>

abbreviation text_abcabc :: "byte list" where
  "text_abcabc \<equiv> [0x61, 0x62, 0x63, 0x61, 0x62, 0x63]"

abbreviation text_abcabd :: "byte list" where
  "text_abcabd \<equiv> [0x61, 0x62, 0x63, 0x61, 0x62, 0x64]"

abbreviation table_abcabc_2 :: HashTable where
  "table_abcabc_2 \<equiv>
     \<lparr>ht_table = [[], [\<lparr>node_gram = [0x63, 0x61, 0x62], node_count = 1\<rparr>,
                       \<lparr>node_gram = [0x62, 0x63, 0x61], node_count = 1\<rparr>,
                       \<lparr>node_gram = [0x61, 0x62, 0x63], node_count = 2\<rparr>]],
      ht_size = 2\<rparr>"

abbreviation table_abcabc_3 :: HashTable where
  "table_abcabc_3 \<equiv>
     \<lparr>ht_table = [[\<lparr>node_gram = [0x61, 0x62, 0x63], node_count = 2\<rparr>],
                  [\<lparr>node_gram = [0x62, 0x63, 0x61], node_count = 1\<rparr>],
                  [\<lparr>node_gram = [0x63, 0x61, 0x62], node_count = 1\<rparr>]],
      ht_size = 3\<rparr>"

abbreviation table_abcabd_3 :: HashTable where
  "table_abcabd_3 \<equiv>
     \<lparr>ht_table = [[\<lparr>node_gram = [0x61, 0x62, 0x63], node_count = 1\<rparr>],
                  [\<lparr>node_gram = [0x61, 0x62, 0x64], node_count = 1\<rparr>,
                   \<lparr>node_gram = [0x62, 0x63, 0x61], node_count = 1\<rparr>],
                  [\<lparr>node_gram = [0x63, 0x61, 0x62], node_count = 1\<rparr>]],
      ht_size = 3\<rparr>"

section \<open>Bytes and C strings\<close>

lemma bit7_iff: "bit (c::byte) 7 \<longleftrightarrow> 0x80 \<le> c"
proof -
  have lt: "unat c < 256" using unsigned_less [of c] by simp
  have "bit c 7 \<longleftrightarrow> bit (unat c) 7" by (simp add: bit_unsigned_iff)
  also have "\<dots> \<longleftrightarrow> odd (unat c div 128)" by (simp add: bit_iff_odd)
  also have "\<dots> \<longleftrightarrow> 128 \<le> unat c"
  proof (cases "unat c < 128")
    case True then show ?thesis by simp
  next
    case False
    then have "unat c div 128 = 1" using lt by simp
    then show ?thesis using False by simp
  qed
  also have "\<dots> \<longleftrightarrow> 0x80 \<le> c" by (simp add: word_le_nat_alt)
  finally show ?thesis .
qed

lemma high_bit_iff: "(c AND 0x80 \<noteq> 0) \<longleftrightarrow> 0x80 \<le> (c :: byte)"
proof -
  have "(128 :: byte) = 2 ^ 7" by simp
  then have "(c AND 0x80 = 0) \<longleftrightarrow> \<not> bit c 7"
    by (simp only: and_exp_eq_0_iff_not_bit)
  then show ?thesis by (simp add: bit7_iff)
qed

lemma lower_alnum:
  assumes "0x41 \<le> (c::byte)" "c \<le> 0x5A"
  shows "0x61 \<le> c + 32 \<and> c + 32 \<le> 0x7A"
proof -
  have a: "65 \<le> unat c" "unat c \<le> 90" using assms by (simp_all add: word_le_nat_alt)
  then have "unat (c + 32) = unat c + 32" by (simp add: unat_word_ariths)
  then show ?thesis using a by (simp add: word_le_nat_alt)
qed

lemma c_str_append_nul: "0 \<notin> set pre \<Longrightarrow> c_str (pre @ 0 # post) = pre"
  unfolding c_str_def by (induction pre) auto

lemma c_str_no_nul: "0 \<notin> set (c_str buf)"
  unfolding c_str_def by (induction buf) auto

lemma c_str_id: "0 \<notin> set s \<Longrightarrow> c_str s = s"
  unfolding c_str_def by (induction s) auto

lemma nul_split: "0 \<in> set buf \<Longrightarrow> \<exists>post. buf = c_str buf @ 0 # post"
proof -
  assume a: "0 \<in> set buf"
  then have "dropWhile (\<lambda>c. c \<noteq> 0) buf \<noteq> []" by (simp add: dropWhile_eq_Nil_conv) 
  then obtain x post where d: "dropWhile (\<lambda>c. c \<noteq> 0) buf = x # post" by (cases "dropWhile (\<lambda>c. c \<noteq> 0) buf") auto
  then have "x = 0" using hd_dropWhile [of "\<lambda>c. c \<noteq> 0" buf] by auto
  then have "buf = c_str buf @ 0 # post" using d takeWhile_dropWhile_id [of "\<lambda>c. c \<noteq> 0" buf]
    by (simp add: c_str_def)
  then show ?thesis ..
qed

lemma strlen_append_nul: "0 \<notin> set pre \<Longrightarrow> strlen (pre @ 0 # post) = Some (length pre)"
  by (induction pre) auto

lemma to_lower_case_loop_eq:
  "0 \<notin> set rest \<Longrightarrow>
   to_lower_case_loop (length done) (done @ rest @ 0 # post) =
     Some (done @ map lower_char rest @ 0 # post)"
proof (induction rest arbitrary: "done")
  case Nil
  show ?case by (subst to_lower_case_loop.simps) simp
next
  case (Cons c rest)
  then have c: "c \<noteq> 0" and r: "0 \<notin> set rest" by auto
  have "to_lower_case_loop (length done) (done @ (c # rest) @ 0 # post) =
        to_lower_case_loop (length (done @ [lower_char c])) ((done @ [lower_char c]) @ rest @ 0 # post)"
    using c by (subst to_lower_case_loop.simps) (simp add: lower_char_def)
  also have "\<dots> = Some ((done @ [lower_char c]) @ map lower_char rest @ 0 # post)"
    by (rule Cons.IH [OF r])
  finally show ?case by simp
qed

lemma to_lower_case_eq:
  "0 \<notin> set pre \<Longrightarrow> to_lower_case (pre @ 0 # post) = Some (map lower_char pre @ 0 # post)"
  using to_lower_case_loop_eq [of pre "[]" post] by (simp add: to_lower_case_def)

lemma remove_punctuation_loop_eq:
  "0 \<notin> set rest \<Longrightarrow> length out \<le> length consumed \<Longrightarrow> orig = consumed @ rest @ 0 # post \<Longrightarrow>
   remove_punctuation_loop (length consumed) (length out) (out @ drop (length out) orig) =
     Some ((out @ filter keep_char rest @
            drop (length out + length (filter keep_char rest)) orig)
           [length out + length (filter keep_char rest) := 0])"
proof (induction rest arbitrary: out consumed)
  case Nil
  show ?case using Nil by (subst remove_punctuation_loop.simps) (simp add: nth_append)
next
  case (Cons c rest)
  then have c: "c \<noteq> 0" and r: "0 \<notin> set rest" and le: "length out \<le> length consumed"
    and orig: "orig = (consumed @ [c]) @ rest @ 0 # post" by auto
  define buf where "buf = out @ drop (length out) orig"
  have len: "length consumed < length buf" using le by (simp add: buf_def orig)
  have nth: "buf ! length consumed = c" using le by (simp add: buf_def orig nth_append)
  have step: "remove_punctuation_loop (length consumed) (length out) buf =
        (if keep_char c
         then remove_punctuation_loop (Suc (length consumed)) (Suc (length out)) (buf[length out := c])
         else remove_punctuation_loop (Suc (length consumed)) (length out) buf)"
    using c len nth by (subst remove_punctuation_loop.simps) simp
  show ?case
  proof (cases "keep_char c")
    case True
    have "length out < length orig" using le by (simp add: orig)
    then have "drop (length out) orig = orig ! length out # drop (Suc (length out)) orig"
      by (rule Cons_nth_drop_Suc [symmetric])
    then have upd: "buf[length out := c] = (out @ [c]) @ drop (length (out @ [c])) orig"
      by (simp add: buf_def list_update_append)
    have "length (out @ [c]) \<le> length (consumed @ [c])" using le by simp
    from Cons.IH [OF r this orig]
    have "remove_punctuation_loop (Suc (length consumed)) (Suc (length out)) (buf[length out := c]) =
        Some ((out @ c # filter keep_char rest @
            drop (Suc (length out) + length (filter keep_char rest)) orig)
           [Suc (length out) + length (filter keep_char rest) := 0])"
      by (simp add: upd)
    then show ?thesis using True step by (simp add: buf_def)
  next
    case False
    have "length out \<le> length (consumed @ [c])" using le by simp
    from Cons.IH [OF r this orig]
    have "remove_punctuation_loop (Suc (length consumed)) (length out) buf =
       Some ((out @ filter keep_char rest @
            drop (length out + length (filter keep_char rest)) orig)
           [length out + length (filter keep_char rest) := 0])"
      by (simp add: buf_def)
    then show ?thesis using False step by (simp add: buf_def)
  qed
qed

lemma remove_punctuation_eq:
  assumes "0 \<notin> set pre"
  shows "remove_punctuation (pre @ 0 # post) =
     Some (filter keep_char pre @ 0 # drop (Suc (length (filter keep_char pre))) (pre @ 0 # post))"
proof -
  let ?f = "filter keep_char pre"
  have l: "length ?f < length (pre @ 0 # post)"
    by (simp add: le_imp_less_Suc trans_le_add1)
  have "remove_punctuation (pre @ 0 # post) =
      Some ((?f @ drop (length ?f) (pre @ 0 # post))[length ?f := 0])"
    using remove_punctuation_loop_eq [OF assms, of "[]" "[]" "pre @ 0 # post" post]
    by (simp add: remove_punctuation_def)
  also have "drop (length ?f) (pre @ 0 # post) =
      (pre @ 0 # post) ! length ?f # drop (Suc (length ?f)) (pre @ 0 # post)"
    using l by (rule Cons_nth_drop_Suc [symmetric])
  finally show ?thesis by (simp add: list_update_append)
qed

section \<open>The hash table and its invariant\<close>

lemma hash_loop_c_str: "hash_loop cs (c_str s) h = hash_loop cs s h"
  unfolding c_str_def by (induction s arbitrary: h) auto

lemma bucket_index_less:
  assumes "0 < n" "n < 2 ^ 31"
  shows "bucket_index cs n g < nat n"
proof -
  have u: "unat (word_of_int n :: 32 word) = nat n"
    using assms by (simp add: unat_eq_nat_uint uint_word_of_int)
  then have nz: "(word_of_int n :: 32 word) \<noteq> 0" using assms
    by (metis unat_0 nat_0_iff not_less)
  have "unat (hash_loop cs g 5381 mod word_of_int n) < unat (word_of_int n :: 32 word)"
    using nz by (simp add: unat_mod_distrib unat_gt_0)
  then show ?thesis using u by (simp add: bucket_index_def)
qed

lemma hash_function_eq:
  "n \<noteq> 0 \<Longrightarrow> hash_function cs g n = Some (of_nat (bucket_index cs n (c_str g))) \<and>
     unat (of_nat (bucket_index cs n (c_str g)) :: 32 word) = bucket_index cs n (c_str g)"
  by (simp add: hash_function_def bucket_index_def hash_loop_c_str)

lemma c_str_take: "c_str (take n s) = take n (c_str s)"
  unfolding c_str_def
proof (induction s arbitrary: n)
  case Nil show ?case by simp
next
  case (Cons a s) show ?case by (cases n) (auto simp: Cons.IH)
qed

lemma c_str_pad: "0 \<notin> set s \<Longrightarrow> c_str (s @ replicate k 0) = s"
  unfolding c_str_def by (induction s) (auto simp: takeWhile_replicate)

lemma c_str_strncpy: "c_str (strncpy n src) = take n (c_str src)"
proof -
  have "0 \<notin> set (c_str (take n src))" by (rule c_str_no_nul)
  then show ?thesis by (simp add: strncpy_def Let_def c_str_pad c_str_take)
qed

lemma c_str_idem: "c_str (c_str s) = c_str s"
  by (simp add: c_str_id c_str_no_nul)

lemma addhash_find_None: "addhash_find g chain = None \<longleftrightarrow> c_str g \<notin> node_key ` set chain"
  by (induction chain) (auto simp: strcmp_eq_def node_key_def)

lemma addhash_find_Some:
  "addhash_find g chain = Some chain' \<Longrightarrow>
     map node_key chain' = map node_key chain \<and>
     key_count k chain' = key_count k chain + (if k = c_str g then 1 else 0) \<and>
     (\<Sum>e\<leftarrow>chain'. node_count e) = (\<Sum>e\<leftarrow>chain. node_count e) + 1 \<and>
     ((\<forall>e \<in> set chain. 0 < node_count e) \<longrightarrow> (\<forall>e \<in> set chain'. 0 < node_count e))"
proof (induction chain arbitrary: chain')
  case Nil
  then show ?case by simp
next
  case (Cons current rest)
  show ?case
  proof (cases "strcmp_eq (node_gram current) g")
    case True
    then have "chain' = current\<lparr>node_count := node_count current + 1\<rparr> # rest"
      using Cons.prems by simp
    then show ?thesis using True
      by (auto simp: key_count_def node_key_def strcmp_eq_def)
  next
    case False
    then obtain r where r: "addhash_find g rest = Some r" and c: "chain' = current # r"
      using Cons.prems by auto
    from Cons.IH [OF r] show ?thesis using False c
      by (auto simp: key_count_def node_key_def strcmp_eq_def)
  qed
qed

lemma concat_update_set:
  "i < length xs \<Longrightarrow> set (concat (xs[i := c])) \<subseteq> set (concat xs) \<union> set c"
  by (induction xs arbitrary: i) (auto split: nat.splits)

lemma concat_update_cons_set:
  "i < length xs \<Longrightarrow> set (concat (xs[i := a # xs ! i])) = insert a (set (concat xs))"
proof (induction xs arbitrary: i)
  case Nil then show ?case by simp
next
  case (Cons x xs) then show ?case by (cases i) auto
qed

lemma concat_update_cons_distinct:
  "i < length xs \<Longrightarrow> distinct (map f (concat xs)) \<Longrightarrow> f a \<notin> f ` set (concat xs) \<Longrightarrow>
   distinct (map f (concat (xs[i := a # xs ! i])))"
proof (induction xs arbitrary: i)
  case Nil then show ?case by simp
next
  case (Cons x xs)
  show ?case
  proof (cases i)
    case 0 then show ?thesis using Cons.prems by auto
  next
    case (Suc j)
    then have j: "j < length xs" using Cons.prems by simp
    have d: "distinct (map f (concat (xs[j := a # xs ! j])))"
      using Cons.prems by (intro Cons.IH [OF j]) auto
    have s: "set (concat (xs[j := a # xs ! j])) = insert a (set (concat xs))"
      by (rule concat_update_cons_set [OF j])
    have "f ` set x \<inter> f ` set (concat (xs[j := a # xs ! j])) = {}"
      unfolding s using Cons.prems by auto
    then show ?thesis using Suc d Cons.prems by simp
  qed
qed

lemma concat_update_map:
  "i < length xs \<Longrightarrow> map f c = map f (xs ! i) \<Longrightarrow> map f (concat (xs[i := c])) = map f (concat xs)"
proof (induction xs arbitrary: i)
  case Nil then show ?case by simp
next
  case (Cons x xs) then show ?case by (cases i) auto
qed

lemma concat_update_sum:
  fixes f :: "'a \<Rightarrow> int"
  shows "i < length xs \<Longrightarrow>
    (\<Sum>e\<leftarrow>concat (xs[i := c]). f e) = (\<Sum>e\<leftarrow>concat xs. f e) - (\<Sum>e\<leftarrow>xs ! i. f e) + (\<Sum>e\<leftarrow>c. f e)"
proof (induction xs arbitrary: i)
  case Nil then show ?case by simp
next
  case (Cons x xs) then show ?case by (cases i) auto
qed

lemma in_entries_bucket:
  assumes "e \<in> set (entries ht)"
  shows "\<exists>j < length (ht_table ht). e \<in> set (ht_table ht ! j)"
proof -
  from assms obtain ys where ys: "ys \<in> set (ht_table ht)" "e \<in> set ys"
    by (auto simp: entries_def)
  then obtain j where "j < length (ht_table ht)" "ht_table ht ! j = ys"
    by (auto simp: in_set_conv_nth)
  then show ?thesis using ys by blast
qed

lemma ht_inv_bucket:
  "ht_inv cs ht \<Longrightarrow> j < length (ht_table ht) \<Longrightarrow> e \<in> set (ht_table ht ! j) \<Longrightarrow>
   bucket_index cs (ht_size ht) (node_key e) = j"
  by (simp add: ht_inv_def)

lemma bucket_in_entries:
  "j < length (ht_table ht) \<Longrightarrow> e \<in> set (ht_table ht ! j) \<Longrightarrow> e \<in> set (entries ht)"
  by (auto simp: entries_def)

lemma ht_inv_update:
  assumes inv: "ht_inv cs ht"
    and i: "i < length (ht_table ht)"
    and keys: "\<forall>e \<in> set chain. bucket_index cs (ht_size ht) (node_key e) = i"
    and dist: "distinct (map node_key (concat ((ht_table ht)[i := chain])))"
    and pos: "\<forall>e \<in> set chain. 0 < node_count e"
  shows "ht_inv cs (ht\<lparr>ht_table := (ht_table ht)[i := chain]\<rparr>)"
proof -
  let ?t = "(ht_table ht)[i := chain]"
  have b: "\<forall>j < length ?t. \<forall>e \<in> set (?t ! j). bucket_index cs (ht_size ht) (node_key e) = j"
  proof (intro allI impI ballI)
    fix j e assume j: "j < length ?t" and e: "e \<in> set (?t ! j)"
    show "bucket_index cs (ht_size ht) (node_key e) = j"
    proof (cases "j = i")
      case True then show ?thesis using e i keys by simp
    next
      case False then show ?thesis using e j inv by (simp add: ht_inv_def)
    qed
  qed
  have p: "\<forall>e \<in> set (concat ?t). 0 < node_count e"
  proof
    fix e assume "e \<in> set (concat ?t)"
    then have "e \<in> set (concat (ht_table ht)) \<or> e \<in> set chain"
      using concat_update_set [OF i, of chain] by auto
    then show "0 < node_count e" using pos inv by (auto simp: ht_inv_def entries_def)
  qed
  show ?thesis using inv b p dist by (simp add: ht_inv_def entries_def)
qed

lemma addhash_inv:
  assumes inv: "ht_inv cs ht" and g0: "0 \<notin> set g" and gl: "length g \<le> N_GRAM"
  shows "\<exists>ht'. addhash cs ht g = Some ht' \<and> ht_inv cs ht' \<and> ht_size ht' = ht_size ht \<and>
           (\<forall>k. shingle_count ht' k = shingle_count ht k + (if k = g then 1 else 0)) \<and>
           total_count ht' = total_count ht + 1"
proof -
  define i where "i = bucket_index cs (ht_size ht) g"
  have cg: "c_str g = g" using g0 by (rule c_str_id)
  have sz: "0 < ht_size ht" "ht_size ht < 2 ^ 31" "length (ht_table ht) = nat (ht_size ht)"
    using inv by (simp_all add: ht_inv_def)
  have i: "i < length (ht_table ht)"
    using bucket_index_less [OF sz(1,2)] sz(3) by (simp add: i_def)
  have h: "hash_function cs g (ht_size ht) = Some (of_nat i)" "unat (of_nat i :: 32 word) = i"
    using hash_function_eq [of "ht_size ht" cs g] sz(1) by (simp_all add: cg i_def)
  show ?thesis
  proof (cases "addhash_find g (ht_table ht ! i)")
    case (Some chain)
    let ?ht' = "ht\<lparr>ht_table := (ht_table ht)[i := chain]\<rparr>"
    note fs = addhash_find_Some [OF Some]
    have m: "map node_key chain = map node_key (ht_table ht ! i)" using fs by simp
    have r: "addhash cs ht g = Some ?ht'" using h i Some by (simp add: addhash_def)
    have keys: "\<forall>e \<in> set chain. bucket_index cs (ht_size ht) (node_key e) = i"
    proof
      fix e assume "e \<in> set chain"
      then have "node_key e \<in> set (map node_key (ht_table ht ! i))" unfolding m [symmetric] by simp
      then obtain e' where "e' \<in> set (ht_table ht ! i)" "node_key e' = node_key e" by auto
      then show "bucket_index cs (ht_size ht) (node_key e) = i"
        using ht_inv_bucket [OF inv i, of e'] by simp
    qed
    have "map node_key (concat ((ht_table ht)[i := chain])) = map node_key (concat (ht_table ht))"
      by (rule concat_update_map [OF i m])
    then have dist: "distinct (map node_key (concat ((ht_table ht)[i := chain])))"
      using inv by (simp add: ht_inv_def entries_def)
    have "\<forall>e \<in> set (ht_table ht ! i). 0 < node_count e"
      using inv i bucket_in_entries [of i ht] by (auto simp: ht_inv_def)
    then have pos: "\<forall>e \<in> set chain. 0 < node_count e" using fs [of g] by blast
    have inv': "ht_inv cs ?ht'" by (rule ht_inv_update [OF inv i keys dist pos])
    have cnt: "shingle_count ?ht' k = shingle_count ht k + (if k = g then 1 else 0)" for k
      using concat_update_sum [OF i, of "\<lambda>e. if node_key e = k then node_count e else 0" chain]
        fs [of k]
      by (simp add: shingle_count_def entries_def key_count_def cg)
    have tot: "total_count ?ht' = total_count ht + 1"
      using concat_update_sum [OF i, of node_count chain] fs [of g]
      by (simp add: total_count_def entries_def)
    show ?thesis using r inv' cnt tot by simp
  next
    case None
    define new where "new = \<lparr>node_gram = strncpy N_GRAM g, node_count = 1\<rparr>"
    let ?chain = "new # ht_table ht ! i"
    let ?ht' = "ht\<lparr>ht_table := (ht_table ht)[i := ?chain]\<rparr>"
    have nk: "node_key new = g" using gl by (simp add: new_def node_key_def c_str_strncpy cg)
    have r: "addhash cs ht g = Some ?ht'" using h i None by (simp add: addhash_def new_def)
    have notin: "g \<notin> node_key ` set (ht_table ht ! i)"
      using None by (simp add: addhash_find_None cg)
    have fresh: "node_key new \<notin> node_key ` set (concat (ht_table ht))"
    proof
      assume "node_key new \<in> node_key ` set (concat (ht_table ht))"
      then obtain e where e: "e \<in> set (entries ht)" "node_key e = g" by (auto simp: nk entries_def)
      then obtain j where j: "j < length (ht_table ht)" "e \<in> set (ht_table ht ! j)"
        using in_entries_bucket by blast
      then have "j = i" using ht_inv_bucket [OF inv j] e by (simp add: i_def)
      then show False using notin j e by auto
    qed
    have keys: "\<forall>e \<in> set ?chain. bucket_index cs (ht_size ht) (node_key e) = i"
      using ht_inv_bucket [OF inv i] by (auto simp: nk i_def)
    have dist: "distinct (map node_key (concat ((ht_table ht)[i := ?chain])))"
      using inv fresh by (intro concat_update_cons_distinct [OF i]) (simp_all add: ht_inv_def entries_def)
    have "\<forall>e \<in> set (ht_table ht ! i). 0 < node_count e"
      using inv i bucket_in_entries [of i ht] by (auto simp: ht_inv_def)
    then have pos: "\<forall>e \<in> set ?chain. 0 < node_count e" by (simp add: new_def)
    have inv': "ht_inv cs ?ht'" by (rule ht_inv_update [OF inv i keys dist pos])
    have cnt: "shingle_count ?ht' k = shingle_count ht k + (if k = g then 1 else 0)" for k
      using concat_update_sum [OF i, of "\<lambda>e. if node_key e = k then node_count e else 0" ?chain] nk
      by (auto simp: shingle_count_def entries_def key_count_def new_def)
    have tot: "total_count ?ht' = total_count ht + 1"
      using concat_update_sum [OF i, of node_count ?chain]
      by (simp add: total_count_def entries_def new_def)
    show ?thesis using r inv' cnt tot by simp
  qed
qed

lemma create_hash_table_inv:
  "0 < n \<Longrightarrow> n < 2 ^ 31 \<Longrightarrow> ht_inv cs (create_hash_table n)"
  by (simp add: ht_inv_def create_hash_table_def entries_def)

lemma create_hash_table_empty:
  "entries (create_hash_table n) = []"
  by (simp add: create_hash_table_def entries_def)

section \<open>The loops of the similarity engine\<close>

lemma addhash_defined:
  assumes "0 < ht_size ht" "ht_size ht < 2 ^ 31" "length (ht_table ht) = nat (ht_size ht)"
  shows "addhash cs ht g \<noteq> None"
proof -
  have "bucket_index cs (ht_size ht) (c_str g) < length (ht_table ht)"
    using bucket_index_less [OF assms(1,2)] assms(3) by simp
  then show ?thesis
    using hash_function_eq [of "ht_size ht" cs g] assms(1)
    by (simp add: addhash_def split: option.splits)
qed

lemma intersection_chain_eq:
  assumes "0 < ht_size ht2" "ht_size ht2 < 2 ^ 31" "length (ht_table ht2) = nat (ht_size ht2)"
  shows "intersection_chain cs ht2 chain acc = Some (acc + (\<Sum>e\<leftarrow>chain. match_count cs ht2 e))"
proof (induction chain arbitrary: acc)
  case Nil
  show ?case by simp
next
  case (Cons current rest)
  have "bucket_index cs (ht_size ht2) (node_key current) < length (ht_table ht2)"
    using bucket_index_less [OF assms(1,2)] assms(3) by simp
  then show ?case
    using hash_function_eq [of "ht_size ht2" cs "node_gram current"] assms(1)
    by (simp add: Cons.IH match_count_def node_key_def)
qed

lemma get_intersection_loop_eq:
  "0 < ht_size ht2 \<Longrightarrow> ht_size ht2 < 2 ^ 31 \<Longrightarrow> length (ht_table ht2) = nat (ht_size ht2) \<Longrightarrow>
   length (ht_table ht1) = nat (ht_size ht1) \<Longrightarrow>
   get_intersection_loop cs ht1 ht2 i acc =
     Some (acc + (\<Sum>e\<leftarrow>concat (drop i (ht_table ht1)). match_count cs ht2 e))"
proof (induction cs ht1 ht2 i acc rule: get_intersection_loop.induct)
  case (1 cs ht1 ht2 i acc)
  note ch = intersection_chain_eq [OF "1.prems"(1,2,3), of cs]
  show ?case
  proof (cases "int i < ht_size ht1")
    case True
    then have i: "i < length (ht_table ht1)" using "1.prems"(4) by simp
    then have d: "drop i (ht_table ht1) = ht_table ht1 ! i # drop (Suc i) (ht_table ht1)"
      by (rule Cons_nth_drop_Suc [symmetric])
    have "get_intersection_loop cs ht1 ht2 (Suc i)
            (acc + (\<Sum>e\<leftarrow>ht_table ht1 ! i. match_count cs ht2 e)) =
          Some (acc + (\<Sum>e\<leftarrow>ht_table ht1 ! i. match_count cs ht2 e) +
            (\<Sum>e\<leftarrow>concat (drop (Suc i) (ht_table ht1)). match_count cs ht2 e))"
      by (rule "1.IH" [OF True i ch "1.prems"])
    then show ?thesis
      using True i by (subst get_intersection_loop.simps) (simp add: ch d)
  next
    case False
    then have "length (ht_table ht1) \<le> i" using "1.prems"(4) by simp
    then show ?thesis using False by (subst get_intersection_loop.simps) simp
  qed
qed

lemma get_intersection_count_eq:
  assumes "0 < ht_size ht2" "ht_size ht2 < 2 ^ 31" "length (ht_table ht2) = nat (ht_size ht2)"
    and "length (ht_table ht1) = nat (ht_size ht1)"
  shows "get_intersection_count cs ht1 ht2 = Some (\<Sum>e\<leftarrow>entries ht1. match_count cs ht2 e)"
  using get_intersection_loop_eq [OF assms, of cs 0 0]
  by (simp add: get_intersection_count_def entries_def)

lemma union_chain_eq: "union_chain chain acc = acc + (\<Sum>e\<leftarrow>chain. node_count e)"
  by (induction chain arbitrary: acc) auto

lemma get_union_loop_eq:
  "length (ht_table ht) = nat (ht_size ht) \<Longrightarrow>
   get_union_loop ht i acc = Some (acc + (\<Sum>e\<leftarrow>concat (drop i (ht_table ht)). node_count e))"
proof (induction ht i acc rule: get_union_loop.induct)
  case (1 ht i acc)
  show ?case
  proof (cases "int i < ht_size ht")
    case True
    then have i: "i < length (ht_table ht)" using "1.prems" by simp
    then have d: "drop i (ht_table ht) = ht_table ht ! i # drop (Suc i) (ht_table ht)"
      by (rule Cons_nth_drop_Suc [symmetric])
    have "get_union_loop ht (Suc i) (union_chain (ht_table ht ! i) acc) =
          Some (union_chain (ht_table ht ! i) acc +
            (\<Sum>e\<leftarrow>concat (drop (Suc i) (ht_table ht)). node_count e))"
      by (rule "1.IH" [OF True i "1.prems"])
    then show ?thesis
      using True i by (subst get_union_loop.simps) (simp add: union_chain_eq d)
  next
    case False
    then have "length (ht_table ht) \<le> i" using "1.prems" by simp
    then show ?thesis using False by (subst get_union_loop.simps) simp
  qed
qed

lemma get_union_count_eq:
  assumes "length (ht_table ht1) = nat (ht_size ht1)" "length (ht_table ht2) = nat (ht_size ht2)"
  shows "get_union_count ht1 ht2 = Some (total_count ht1 + total_count ht2)"
  using get_union_loop_eq [OF assms(1), of 0 0]
    get_union_loop_eq [OF assms(2), of 0 "total_count ht1"]
  by (simp add: get_union_count_def total_count_def entries_def)

section \<open>Bucket accesses stay inside the table\<close>

text \<open>
  C10. For every string and every positive table size (an \<open>int\<close>), \<open>hash_function\<close> returns an
  index below the table size.  A table whose \<open>size\<close> field is the length of its bucket array
  is therefore never accessed out of bounds by \<open>addhash\<close>, nor by \<open>get_intersection_count\<close>
  when it is the table that is looked up (the table that is walked is indexed by the loop
  counter, below its own \<open>size\<close>): neither returns the out-of-bounds value \<open>None\<close>.
\<close>

theorem hash_function_index_in_bounds:
  assumes "0 < table_size" and "table_size < 2 ^ 31"
    and "ht_size ht = table_size" and "length (ht_table ht) = nat table_size"
    and "length (ht_table ht1) = nat (ht_size ht1)"
  shows "(\<exists>index. hash_function cs str table_size = Some index \<and>
            unat index < nat table_size \<and> unat index < length (ht_table ht)) \<and>
         addhash cs ht str \<noteq> None \<and>
         get_intersection_count cs ht1 ht \<noteq> None"
proof -
  have s: "0 < ht_size ht" "ht_size ht < 2 ^ 31" "length (ht_table ht) = nat (ht_size ht)"
    using assms by simp_all
  have "bucket_index cs table_size (c_str str) < nat table_size"
    by (rule bucket_index_less [OF assms(1,2)])
  then have "\<exists>index. hash_function cs str table_size = Some index \<and>
            unat index < nat table_size \<and> unat index < length (ht_table ht)"
    using hash_function_eq [of table_size cs str] assms(1,4) by simp
  moreover have "addhash cs ht str \<noteq> None" by (rule addhash_defined [OF s])
  moreover have "get_intersection_count cs ht1 ht \<noteq> None"
    using get_intersection_count_eq [OF s assms(5), of cs] by simp
  ultimately show ?thesis by blast
qed

theorem hash_function_index_in_bounds_witness:
  "(0::int) < 100003 \<and> (100003::int) < 2 ^ 31 \<and>
   ht_size (create_hash_table 100003) = 100003 \<and>
   length (ht_table (create_hash_table 100003)) = nat 100003 \<and>
   length (ht_table (create_hash_table 7)) = nat (ht_size (create_hash_table 7)) \<and>
   (\<exists>index. hash_function True [0x61, 0x62, 0x63] 100003 = Some index \<and>
      unat index < nat 100003 \<and> unat index < length (ht_table (create_hash_table 100003))) \<and>
   addhash True (create_hash_table 100003) [0x61, 0x62, 0x63] \<noteq> None \<and>
   get_intersection_count True (create_hash_table 7) (create_hash_table 100003) \<noteq> None"
proof -
  have h: "(0::int) < 100003" "(100003::int) < 2 ^ 31"
    "ht_size (create_hash_table 100003) = 100003"
    "length (ht_table (create_hash_table 100003)) = nat 100003"
    "length (ht_table (create_hash_table 7)) = nat (ht_size (create_hash_table 7))"
    by (simp_all add: create_hash_table_def)
  show ?thesis
    using h hash_function_index_in_bounds [OF h, of True "[0x61, 0x62, 0x63]"] by blast
qed

section \<open>The sliding window\<close>

lemma strncpy_window:
  assumes "0 \<notin> set pre" "i + n \<le> length pre"
  shows "strncpy n (drop i (pre @ 0 # post)) = take n (drop i pre)"
proof -
  have t: "take n (drop i (pre @ 0 # post)) = take n (drop i pre)" using assms(2) by simp
  have "set (take n (drop i pre)) \<subseteq> set pre"
    by (meson set_take_subset set_drop_subset subset_trans)
  then have z: "0 \<notin> set (take n (drop i pre))" using assms(1) by blast
  have l: "length (take n (drop i pre)) = n" using assms(2) by simp
  show ?thesis unfolding strncpy_def t Let_def c_str_id [OF z] l by simp
qed

lemma generate_ngrams_loop_eq:
  assumes "0 \<notin> set pre"
  shows "generate_ngrams_loop cs (pre @ 0 # post) (int (length pre)) i ht =
     addhash_all cs ht (map (\<lambda>j. take N_GRAM (drop j pre)) [i..<length pre + 1 - N_GRAM])"
proof (induction "length pre + 1 - N_GRAM - i" arbitrary: i ht)
  case 0
  then have "\<not> int i \<le> int (length pre) - int N_GRAM" by linarith
  moreover have "[i..<length pre + 1 - N_GRAM] = []" using 0 by simp
  ultimately show ?case by (subst generate_ngrams_loop.simps) simp
next
  case (Suc m)
  then have lt: "i < length pre + 1 - N_GRAM" by linarith
  then have c: "int i \<le> int (length pre) - int N_GRAM" by linarith
  have w: "strncpy N_GRAM (drop i (pre @ 0 # post)) = take N_GRAM (drop i pre)"
    using lt by (intro strncpy_window [OF assms]) linarith
  have u: "[i..<length pre + 1 - N_GRAM] = i # [Suc i..<length pre + 1 - N_GRAM]"
    using lt by (rule upt_conv_Cons)
  have m: "m = length pre + 1 - N_GRAM - Suc i" using Suc(2) by linarith
  have "generate_ngrams_loop cs (pre @ 0 # post) (int (length pre)) i ht =
      (case addhash cs ht (strncpy N_GRAM (drop i (pre @ 0 # post))) of
         None \<Rightarrow> None
       | Some ht' \<Rightarrow> generate_ngrams_loop cs (pre @ 0 # post) (int (length pre)) (Suc i) ht')"
    using c by (subst generate_ngrams_loop.simps) (simp only: if_True)
  also have "\<dots> = (case addhash cs ht (take N_GRAM (drop i pre)) of
         None \<Rightarrow> None
       | Some ht' \<Rightarrow> addhash_all cs ht'
           (map (\<lambda>j. take N_GRAM (drop j pre)) [Suc i..<length pre + 1 - N_GRAM]))"
    by (simp only: w Suc(1) [OF m])
  also have "\<dots> = addhash_all cs ht
      (map (\<lambda>j. take N_GRAM (drop j pre)) [i..<length pre + 1 - N_GRAM])"
    by (simp only: u list.map addhash_all.simps)
  finally show ?case .
qed

lemma generate_ngrams_eq:
  assumes "0 \<in> set text"
  shows "generate_ngrams cs text ht = addhash_all cs ht (spec_windows N_GRAM (c_str text))"
proof -
  obtain post where t: "text = c_str text @ 0 # post" using nul_split [OF assms] ..
  have z: "0 \<notin> set (c_str text)" by (rule c_str_no_nul)
  have "generate_ngrams cs (c_str text @ 0 # post) ht =
     addhash_all cs ht (spec_windows N_GRAM (c_str text))"
    using generate_ngrams_loop_eq [OF z, of cs post 0 ht]
    by (simp add: generate_ngrams_def strlen_append_nul [OF z] spec_windows_def)
  then show ?thesis using t by simp
qed

lemma spec_windows_elem:
  assumes "g \<in> set (spec_windows n text)"
  shows "length g = n \<and> set g \<subseteq> set text"
proof -
  from assms obtain i where i: "i < length text + 1 - n" and g: "g = take n (drop i text)"
    by (auto simp: spec_windows_def)
  have "set (take n (drop i text)) \<subseteq> set text"
    by (meson set_take_subset set_drop_subset subset_trans)
  moreover have "length (take n (drop i text)) = n" using i by simp
  ultimately show ?thesis using g by simp
qed

lemma addhash_all_inv:
  "ht_inv cs ht \<Longrightarrow> \<forall>g \<in> set gs. 0 \<notin> set g \<and> length g \<le> N_GRAM \<Longrightarrow>
   \<exists>ht'. addhash_all cs ht gs = Some ht' \<and> ht_inv cs ht' \<and> ht_size ht' = ht_size ht \<and>
     (\<forall>k. shingle_count ht' k = shingle_count ht k + int (count_list gs k)) \<and>
     total_count ht' = total_count ht + int (length gs)"
proof (induction gs arbitrary: ht)
  case Nil
  then show ?case by simp
next
  case (Cons g gs)
  then have g: "0 \<notin> set g" "length g \<le> N_GRAM" by auto
  from addhash_inv [OF Cons.prems(1) g] obtain h where
    h: "addhash cs ht g = Some h" "ht_inv cs h" "ht_size h = ht_size ht"
       "\<And>k. shingle_count h k = shingle_count ht k + (if k = g then 1 else 0)"
       "total_count h = total_count ht + 1"
    by blast
  have "\<forall>g \<in> set gs. 0 \<notin> set g \<and> length g \<le> N_GRAM" using Cons.prems(2) by simp
  from Cons.IH [OF h(2) this] obtain ht' where
    r: "addhash_all cs h gs = Some ht'" "ht_inv cs ht'" "ht_size ht' = ht_size h"
       "\<And>k. shingle_count ht' k = shingle_count h k + int (count_list gs k)"
       "total_count ht' = total_count h + int (length gs)"
    by blast
  have "addhash_all cs ht (g # gs) = Some ht'" using h(1) r(1) by simp
  moreover have "shingle_count ht' k = shingle_count ht k + int (count_list (g # gs) k)" for k
    using r(4) [of k] h(4) [of k] by simp
  moreover have "total_count ht' = total_count ht + int (length (g # gs))" using r(5) h(5) by simp
  ultimately show ?case using r(2,3) h(3) by auto
qed

lemma generate_ngrams_built:
  assumes "0 \<in> set text" "0 < n" "n < 2 ^ 31"
  shows "\<exists>ht. generate_ngrams cs text (create_hash_table n) = Some ht \<and> ht_inv cs ht \<and>
     ht_size ht = n \<and>
     (\<forall>k. shingle_count ht k = int (count_list (spec_windows N_GRAM (c_str text)) k)) \<and>
     total_count ht = int (length (spec_windows N_GRAM (c_str text)))"
proof -
  let ?ws = "spec_windows N_GRAM (c_str text)"
  have "\<forall>g \<in> set ?ws. 0 \<notin> set g \<and> length g \<le> N_GRAM"
    using spec_windows_elem [of _ N_GRAM "c_str text"] c_str_no_nul [of "text"] by auto
  note ws = this
  have inv0: "ht_inv cs (create_hash_table n)" by (rule create_hash_table_inv [OF assms(2,3)])
  have z: "shingle_count (create_hash_table n) k = 0" "total_count (create_hash_table n) = 0"
    "ht_size (create_hash_table n) = n" for k
    by (simp_all add: shingle_count_def key_count_def total_count_def create_hash_table_empty)
      (simp add: create_hash_table_def)
  from addhash_all_inv [OF inv0 ws] show ?thesis
    by (simp add: generate_ngrams_eq [OF assms(1)] z)
qed

section \<open>The mapping stored in a table\<close>

lemma key_count_Cons:
  "key_count k (e # es) = (if node_key e = k then node_count e else 0) + key_count k es"
  by (simp add: key_count_def)

lemma key_count_absent: "k \<notin> node_key ` set es \<Longrightarrow> key_count k es = 0"
  by (induction es) (auto simp: key_count_Cons key_count_def)

lemma key_count_distinct:
  "distinct (map node_key es) \<Longrightarrow> e \<in> set es \<Longrightarrow> key_count (node_key e) es = node_count e"
proof (induction es)
  case Nil then show ?case by simp
next
  case (Cons a es)
  show ?case
  proof (cases "e = a")
    case True
    have "node_key a \<notin> node_key ` set es" using Cons.prems(1) by simp
    then show ?thesis using True by (simp add: key_count_Cons key_count_absent)
  next
    case False
    then have e: "e \<in> set es" using Cons.prems(2) by simp
    then have "node_key a \<noteq> node_key e" using Cons.prems(1) by auto
    then show ?thesis using Cons.IH e Cons.prems(1) by (simp add: key_count_Cons)
  qed
qed

lemma key_count_nonneg: "\<forall>e \<in> set es. 0 < node_count e \<Longrightarrow> 0 \<le> key_count k es"
  by (induction es) (auto simp: key_count_Cons key_count_def)

lemma key_count_pos_iff:
  "\<forall>e \<in> set es. 0 < node_count e \<Longrightarrow> 0 < key_count k es \<longleftrightarrow> k \<in> node_key ` set es"
proof (induction es)
  case Nil then show ?case by (simp add: key_count_def)
next
  case (Cons a es)
  then have ih: "0 < key_count k es \<longleftrightarrow> k \<in> node_key ` set es" and a: "0 < node_count a"
    and nn: "0 \<le> key_count k es" using key_count_nonneg [of es k] by auto
  show ?case using ih a nn by (auto simp: key_count_Cons)
qed

lemma map_of_entries:
  "distinct (map node_key es) \<Longrightarrow>
   map_of (map (\<lambda>e. (node_key e, node_count e)) es) k =
     (if k \<in> node_key ` set es then Some (key_count k es) else None)"
proof (induction es)
  case Nil then show ?case by simp
next
  case (Cons a es)
  then have "node_key a \<notin> node_key ` set es" by simp
  then show ?case using Cons
    by (auto simp: key_count_Cons key_count_absent)
qed

lemma shingle_set_of_inv:
  assumes "ht_inv cs ht"
  shows "shingle_set_of ht k =
     (if 0 < shingle_count ht k then Some (shingle_count ht k) else None)"
proof -
  have d: "distinct (map node_key (entries ht))" and p: "\<forall>e \<in> set (entries ht). 0 < node_count e"
    using assms by (simp_all add: ht_inv_def)
  show ?thesis
    unfolding shingle_set_of_def shingle_count_def map_of_entries [OF d] key_count_pos_iff [OF p]
    by simp
qed

lemma ht_inv_keys:
  assumes "ht_inv cs ht"
  shows "node_key ` set (entries ht) = {k. 0 < shingle_count ht k}"
proof -
  have p: "\<forall>e \<in> set (entries ht). 0 < node_count e" using assms by (simp add: ht_inv_def)
  show ?thesis unfolding shingle_count_def using key_count_pos_iff [OF p] by blast
qed

lemma foldl_spec_insert:
  "foldl spec_insert m ws =
     (\<lambda>k. if k \<in> set ws then Some ((case m k of None \<Rightarrow> 0 | Some c \<Rightarrow> c) + int (count_list ws k))
          else m k)"
proof (induction ws arbitrary: m)
  case Nil show ?case by simp
next
  case (Cons w ws)
  show ?case unfolding foldl_Cons Cons.IH
    by (rule ext) (auto simp: spec_insert_def split: option.splits)
qed

lemma spec_build_eq:
  "spec_build n t = (\<lambda>k. if k \<in> set (spec_windows n t)
                        then Some (int (count_list (spec_windows n t) k)) else None)"
  unfolding spec_build_def foldl_spec_insert by (rule ext) simp

lemma count_list_pos_iff: "0 < count_list xs x \<longleftrightarrow> x \<in> set xs"
  using count_list_0_iff [of xs x] by auto

lemma built_shingle_set:
  assumes "ht_inv cs ht"
    and "\<forall>k. shingle_count ht k = int (count_list (spec_windows N_GRAM t) k)"
  shows "shingle_set_of ht = spec_build N_GRAM t"
proof (rule ext)
  fix k
  have "0 < count_list (spec_windows N_GRAM t) k \<longleftrightarrow> k \<in> set (spec_windows N_GRAM t)"
    using count_list_0_iff [of "spec_windows N_GRAM t" k] by auto
  then show "shingle_set_of ht k = spec_build N_GRAM t k"
    by (simp add: shingle_set_of_inv [OF assms(1)] assms(2) spec_build_eq)
qed

section \<open>ShingleSet construction: the claims\<close>

text \<open>
  C2. For every NUL-terminated text buffer and every table size that is a positive \<open>int\<close>,
  \<open>generate_ngrams\<close> on a fresh table returns, and it makes exactly the calls of \<open>addhash\<close>
  for the windows at the byte offsets 0 to \<open>len(text) - N_GRAM\<close>, in order; the mapping held
  by the resulting table is the one obtained by taking these windows one after the other and
  incrementing the count of the window's \<open>N_GRAM\<close> bytes, inserting them with count 1 when
  absent.  A text shorter than \<open>N_GRAM\<close> has no window and leaves the table without entries.
\<close>

theorem generate_ngrams_builds_spec:
  assumes "0 \<in> set text" and "0 < n" and "n < 2 ^ 31"
  shows "\<exists>ht. generate_ngrams cs text (create_hash_table n) = Some ht \<and>
           addhash_all cs (create_hash_table n) (spec_windows N_GRAM (c_str text)) = Some ht \<and>
           shingle_set_of ht = spec_build N_GRAM (c_str text) \<and>
           (length (c_str text) < N_GRAM \<longrightarrow>
              spec_windows N_GRAM (c_str text) = [] \<and> entries ht = [])"
proof -
  from generate_ngrams_built [OF assms, of cs] obtain ht where
    ht: "generate_ngrams cs text (create_hash_table n) = Some ht" "ht_inv cs ht"
      "\<forall>k. shingle_count ht k = int (count_list (spec_windows N_GRAM (c_str text)) k)"
    by blast
  have a: "addhash_all cs (create_hash_table n) (spec_windows N_GRAM (c_str text)) = Some ht"
    using ht(1) by (simp add: generate_ngrams_eq [OF assms(1)])
  have s: "shingle_set_of ht = spec_build N_GRAM (c_str text)"
    by (rule built_shingle_set [OF ht(2,3)])
  have e: "spec_windows N_GRAM (c_str text) = [] \<and> entries ht = []"
    if "length (c_str text) < N_GRAM"
  proof -
    have w: "spec_windows N_GRAM (c_str text) = []" using that by (simp add: spec_windows_def)
    then have "ht = create_hash_table n" using a by simp
    then show ?thesis using w by (simp add: create_hash_table_empty)
  qed
  show ?thesis using ht(1) a s e by blast
qed

theorem generate_ngrams_builds_spec_witness:
  "(0::byte) \<in> set [0x61, 0x62, 0x63, 0x61, 0x62, 0x63, 0] \<and> (0::int) < 2 \<and> (2::int) < 2 ^ 31 \<and>
   generate_ngrams True [0x61, 0x62, 0x63, 0x61, 0x62, 0x63, 0] (create_hash_table 2) =
     Some \<lparr>ht_table = [[], [\<lparr>node_gram = [0x63, 0x61, 0x62], node_count = 1\<rparr>,
                               \<lparr>node_gram = [0x62, 0x63, 0x61], node_count = 1\<rparr>,
                               \<lparr>node_gram = [0x61, 0x62, 0x63], node_count = 2\<rparr>]],
           ht_size = 2\<rparr> \<and>
   shingle_set_of \<lparr>ht_table = [[], [\<lparr>node_gram = [0x63, 0x61, 0x62], node_count = 1\<rparr>,
                                       \<lparr>node_gram = [0x62, 0x63, 0x61], node_count = 1\<rparr>,
                                       \<lparr>node_gram = [0x61, 0x62, 0x63], node_count = 2\<rparr>]],
                   ht_size = 2\<rparr> =
     spec_build N_GRAM (c_str [0x61, 0x62, 0x63, 0x61, 0x62, 0x63, 0]) \<and>
   (0::byte) \<in> set [0x61, 0x62, 0] \<and> length (c_str [0x61, 0x62, 0]) < N_GRAM \<and>
   generate_ngrams True [0x61, 0x62, 0] (create_hash_table 2) = Some (create_hash_table 2) \<and>
   entries (create_hash_table 2) = []"
proof -
  have h: "(0::byte) \<in> set [0x61, 0x62, 0x63, 0x61, 0x62, 0x63, 0]" "(0::int) < 2" "(2::int) < 2 ^ 31"
    "(0::byte) \<in> set [0x61, 0x62, 0]"
    by simp_all
  have e1: "generate_ngrams True [0x61, 0x62, 0x63, 0x61, 0x62, 0x63, 0] (create_hash_table 2) =
     Some \<lparr>ht_table = [[], [\<lparr>node_gram = [0x63, 0x61, 0x62], node_count = 1\<rparr>,
                               \<lparr>node_gram = [0x62, 0x63, 0x61], node_count = 1\<rparr>,
                               \<lparr>node_gram = [0x61, 0x62, 0x63], node_count = 2\<rparr>]],
           ht_size = 2\<rparr>"
    by code_simp
  have e2: "generate_ngrams True [0x61, 0x62, 0] (create_hash_table 2) = Some (create_hash_table 2)"
    by code_simp
  have e3: "length (c_str [0x61, 0x62, 0]) < N_GRAM" by code_simp
  show ?thesis
    using generate_ngrams_builds_spec [OF h(1,2,3), of True]
      generate_ngrams_builds_spec [OF h(4,2,3), of True] h e3
    unfolding e1 e2 by auto
qed

text \<open>
  C7. For every NUL-terminated text buffer, the table built from it holds every distinct
  shingle of the text in exactly one entry (no two entries hold the same string, and the
  strings held are exactly the windows of the text), and the count of an entry is the number
  of windows of the text equal to its string.  Shingles that share a bucket are separate
  entries of that bucket's chain: the witness builds a table with a single bucket.
\<close>

theorem shingle_set_invariant:
  assumes "0 \<in> set text" and "0 < n" and "n < 2 ^ 31"
  shows "\<exists>ht. generate_ngrams cs text (create_hash_table n) = Some ht \<and>
           distinct (map node_key (entries ht)) \<and>
           node_key ` set (entries ht) = set (spec_windows N_GRAM (c_str text)) \<and>
           (\<forall>e \<in> set (entries ht).
              node_count e = int (count_list (spec_windows N_GRAM (c_str text)) (node_key e)))"
proof -
  let ?ws = "spec_windows N_GRAM (c_str text)"
  from generate_ngrams_built [OF assms, of cs] obtain ht where
    ht: "generate_ngrams cs text (create_hash_table n) = Some ht" "ht_inv cs ht"
      "\<forall>k. shingle_count ht k = int (count_list ?ws k)"
    by blast
  have d: "distinct (map node_key (entries ht))" using ht(2) by (simp add: ht_inv_def)
  have "node_key ` set (entries ht) = {k. 0 < count_list ?ws k}"
    using ht_inv_keys [OF ht(2)] ht(3) by simp
  also have "\<dots> = set ?ws" by (auto simp: count_list_pos_iff)
  finally have k: "node_key ` set (entries ht) = set ?ws" .
  have c: "\<forall>e \<in> set (entries ht). node_count e = int (count_list ?ws (node_key e))"
  proof
    fix e assume "e \<in> set (entries ht)"
    from key_count_distinct [OF d this] show "node_count e = int (count_list ?ws (node_key e))"
      using ht(3) by (simp add: shingle_count_def)
  qed
  show ?thesis using ht(1) d k c by blast
qed

theorem shingle_set_invariant_witness:
  "(0::byte) \<in> set [0x61, 0x62, 0x63, 0x61, 0x62, 0x63, 0] \<and> (0::int) < 1 \<and> (1::int) < 2 ^ 31 \<and>
   generate_ngrams True [0x61, 0x62, 0x63, 0x61, 0x62, 0x63, 0] (create_hash_table 1) =
     Some \<lparr>ht_table = [[\<lparr>node_gram = [0x63, 0x61, 0x62], node_count = 1\<rparr>,
                           \<lparr>node_gram = [0x62, 0x63, 0x61], node_count = 1\<rparr>,
                           \<lparr>node_gram = [0x61, 0x62, 0x63], node_count = 2\<rparr>]],
           ht_size = 1\<rparr> \<and>
   distinct (map node_key [\<lparr>node_gram = [0x63, 0x61, 0x62], node_count = 1\<rparr>,
                           \<lparr>node_gram = [0x62, 0x63, 0x61], node_count = 1\<rparr>,
                           \<lparr>node_gram = [0x61, 0x62, 0x63], node_count = 2\<rparr>]) \<and>
   {[0x63, 0x61, 0x62], [0x62, 0x63, 0x61], [0x61, 0x62, 0x63]} =
     set (spec_windows N_GRAM (c_str [0x61, 0x62, 0x63, 0x61, 0x62, 0x63, 0])) \<and>
   (1::int) = int (count_list (spec_windows N_GRAM (c_str [0x61, 0x62, 0x63, 0x61, 0x62, 0x63, 0]))
                  [0x63, 0x61, 0x62]) \<and>
   (2::int) = int (count_list (spec_windows N_GRAM (c_str [0x61, 0x62, 0x63, 0x61, 0x62, 0x63, 0]))
                  [0x61, 0x62, 0x63])"
proof -
  have h: "(0::byte) \<in> set [0x61, 0x62, 0x63, 0x61, 0x62, 0x63, 0]" "(0::int) < 1" "(1::int) < 2 ^ 31"
    by simp_all
  have e: "generate_ngrams True [0x61, 0x62, 0x63, 0x61, 0x62, 0x63, 0] (create_hash_table 1) =
     Some \<lparr>ht_table = [[\<lparr>node_gram = [0x63, 0x61, 0x62], node_count = 1\<rparr>,
                           \<lparr>node_gram = [0x62, 0x63, 0x61], node_count = 1\<rparr>,
                           \<lparr>node_gram = [0x61, 0x62, 0x63], node_count = 2\<rparr>]],
           ht_size = 1\<rparr>"
    by code_simp
  show ?thesis
    using shingle_set_invariant [OF h, of True] h
    unfolding e by (simp add: entries_def node_key_def c_str_def)
qed

section \<open>Rounding to single precision\<close>

lemma float_exponent_bounds:
  "0 < x \<Longrightarrow> 2 powi float_exponent x \<le> x \<and> x < 2 powi (float_exponent x + 1)"
proof (induction x rule: float_exponent.induct)
  case (1 x)
  show ?case
  proof (cases "2 \<le> x")
    case True
    then have e: "float_exponent x = float_exponent (x / 2) + 1"
      by (subst float_exponent.simps) simp
    have "2 powi float_exponent (x / 2) \<le> x / 2 \<and> x / 2 < 2 powi (float_exponent (x / 2) + 1)"
      using "1.IH"(1) True "1.prems" by simp
    then show ?thesis unfolding e by (simp add: power_int_add)
  next
    case False
    show ?thesis
    proof (cases "x < 1")
      case True
      then have e: "float_exponent x = float_exponent (2 * x) - 1"
        using False "1.prems" by (subst float_exponent.simps) simp
      have "2 powi float_exponent (2 * x) \<le> 2 * x \<and> 2 * x < 2 powi (float_exponent (2 * x) + 1)"
        using "1.IH"(2) True False "1.prems" by simp
      then show ?thesis unfolding e by (simp add: power_int_add power_int_diff)
    next
      case False
      then have "float_exponent x = 0" using \<open>\<not> 2 \<le> x\<close> "1.prems"
        by (subst float_exponent.simps) simp
      then show ?thesis using False \<open>\<not> 2 \<le> x\<close> by simp
    qed
  qed
qed

lemma float_exponent_unique:
  assumes "2 powi e \<le> x" "x < 2 powi (e + 1)"
  shows "float_exponent x = e"
proof -
  have x: "0 < x" using assms(1) zero_less_power_int [of "2::real" e] by linarith
  note b = float_exponent_bounds [OF x]
  have "2 powi e < (2::real) powi (float_exponent x + 1)" using assms(1) b by linarith
  then have "e < float_exponent x + 1"
    by (metis one_less_numeral_iff semiring_norm(76) not_less power_int_increasing
        less_eq_real_def)
  moreover have "2 powi float_exponent x < (2::real) powi (e + 1)" using assms(2) b by linarith
  then have "float_exponent x < e + 1"
    by (metis one_less_numeral_iff semiring_norm(76) not_less power_int_increasing
        less_eq_real_def)
  ultimately show ?thesis by linarith
qed

lemma round_half_even_of_int: "round_half_even (of_int n) = n"
  by (simp add: round_half_even_def)

lemma round_half_even_cases:
  "round_half_even x = \<lfloor>x\<rfloor> \<or> round_half_even x = \<lfloor>x\<rfloor> + 1"
  by (simp add: round_half_even_def Let_def)

lemma round_half_even_mono:
  assumes "x \<le> y"
  shows "round_half_even x \<le> round_half_even y"
proof (cases "\<lfloor>x\<rfloor> = \<lfloor>y\<rfloor>")
  case True
  then show ?thesis using assms by (auto simp: round_half_even_def Let_def)
next
  case False
  then have "\<lfloor>x\<rfloor> < \<lfloor>y\<rfloor>" using floor_mono [OF assms] by linarith
  then show ?thesis using round_half_even_cases [of x] round_half_even_cases [of y] by linarith
qed

lemma round_to_float_bounds:
  assumes "0 < x"
  shows "2 powi float_exponent x \<le> round_to_float x \<and>
         round_to_float x \<le> 2 powi (float_exponent x + 1)"
proof -
  define e where "e = float_exponent x"
  define ulp :: real where "ulp = 2 powi (e - 23)"
  have u: "0 < ulp" by (simp add: ulp_def)
  have lo: "2 powi e = 2 ^ 23 * ulp" and hi: "2 powi (e + 1) = 2 ^ 24 * ulp"
    unfolding ulp_def by (simp_all add: power_int_diff power_int_add)
  have b: "2 powi e \<le> x" "x < 2 powi (e + 1)"
    using float_exponent_bounds [OF assms] by (simp_all add: e_def)
  have "2 ^ 23 \<le> x / ulp" using b(1) u unfolding lo by (simp add: field_simps)
  then have "round_half_even (of_int (2 ^ 23)) \<le> round_half_even (x / ulp)"
    by (intro round_half_even_mono) simp
  then have l: "2 ^ 23 \<le> round_half_even (x / ulp)" by (simp only: round_half_even_of_int)
  have "x / ulp \<le> 2 ^ 24" using b(2) u unfolding hi by (simp add: field_simps)
  then have "round_half_even (x / ulp) \<le> round_half_even (of_int (2 ^ 24))"
    by (intro round_half_even_mono) simp
  then have h: "round_half_even (x / ulp) \<le> 2 ^ 24" by (simp only: round_half_even_of_int)
  have r: "round_to_float x = of_int (round_half_even (x / ulp)) * ulp"
    using assms by (simp add: round_to_float_def Let_def ulp_def e_def)
  have "2 ^ 23 * ulp \<le> of_int (round_half_even (x / ulp)) * ulp"
    using l u by (intro mult_right_mono) (simp_all add: of_int_le_iff [symmetric] del: of_int_le_iff)
  moreover have "of_int (round_half_even (x / ulp)) * ulp \<le> 2 ^ 24 * ulp"
    using h u by (intro mult_right_mono) (simp_all add: of_int_le_iff [symmetric] del: of_int_le_iff)
  ultimately show ?thesis unfolding r e_def [symmetric] lo hi by simp
qed

lemma round_to_float_nonneg: "0 \<le> x \<Longrightarrow> 0 \<le> round_to_float x"
proof (cases "x = 0")
  case True then show ?thesis by (simp add: round_to_float_def)
next
  case False
  assume "0 \<le> x"
  then have "0 < x" using False by simp
  from round_to_float_bounds [OF this] zero_less_power_int [of "2::real" "float_exponent x"]
  show ?thesis by linarith
qed

lemma round_to_float_mono:
  assumes "0 \<le> x" "x \<le> y"
  shows "round_to_float x \<le> round_to_float y"
proof (cases "x = 0")
  case True
  then show ?thesis using round_to_float_nonneg [of y] assms by (simp add: round_to_float_def)
next
  case False
  then have x: "0 < x" and y: "0 < y" using assms by simp_all
  note bx = float_exponent_bounds [OF x] and by' = float_exponent_bounds [OF y]
  have "2 powi float_exponent x < (2::real) powi (float_exponent y + 1)"
    using bx by' assms(2) by linarith
  then have le: "float_exponent x \<le> float_exponent y"
    by (metis one_less_numeral_iff semiring_norm(76) not_less power_int_increasing
        less_eq_real_def zle_add1_eq_le)
  show ?thesis
  proof (cases "float_exponent x = float_exponent y")
    case True
    define ulp :: real where "ulp = 2 powi (float_exponent y - 23)"
    have u: "0 < ulp" by (simp add: ulp_def)
    have "x / ulp \<le> y / ulp" using assms(2) u by (simp add: divide_right_mono)
    then have "round_half_even (x / ulp) \<le> round_half_even (y / ulp)"
      by (rule round_half_even_mono)
    then have "of_int (round_half_even (x / ulp)) * ulp \<le> of_int (round_half_even (y / ulp)) * ulp"
      using u by (intro mult_right_mono) simp_all
    then show ?thesis using x y True by (simp add: round_to_float_def Let_def ulp_def)
  next
    case False
    then have "float_exponent x + 1 \<le> float_exponent y" using le by linarith
    then have "2 powi (float_exponent x + 1) \<le> (2::real) powi float_exponent y"
      by (intro power_int_increasing) simp_all
    then show ?thesis using round_to_float_bounds [OF x] round_to_float_bounds [OF y] by linarith
  qed
qed

lemma pow2_less_imp_less: "(2::real) powi a < 2 powi b \<Longrightarrow> a < b"
  using power_int_increasing [of b a "2::real"] by (cases "a < b") simp_all

lemma int_to_float_exact:
  assumes "0 \<le> i" "i < 2 ^ 24"
  shows "int_to_float i = of_int i"
proof (cases "i = 0")
  case True then show ?thesis by (simp add: int_to_float_def round_to_float_def)
next
  case False
  then have i: "0 < (of_int i :: real)" and i1: "1 \<le> (of_int i :: real)" using assms(1) by simp_all
  define e where "e = float_exponent (of_int i)"
  note b = float_exponent_bounds [OF i, folded e_def]
  have "(of_int i :: real) < 2 powi 24" using assms(2)
    by (metis of_int_less_iff of_int_numeral of_int_power power_int_numeral)
  then have "2 powi e < (2::real) powi 24" using b by linarith
  then have e1: "e < 24" by (rule pow2_less_imp_less)
  have "2 powi 0 < (2::real) powi (e + 1)" using b i1 by simp
  then have e0: "0 < e + 1" by (rule pow2_less_imp_less)
  define n where "n = nat (23 - e)"
  have en: "e - 23 = - int n" using e1 by (simp add: n_def)
  have ulp: "(2::real) powi (e - 23) = 1 / 2 ^ n"
    unfolding en by (simp add: power_int_minus field_simps)
  have "of_int i / (1 / 2 ^ n) = (of_int (i * 2 ^ n) :: real)" by simp
  then have "round_half_even (of_int i / (1 / 2 ^ n)) = i * 2 ^ n"
    by (simp only: round_half_even_of_int)
  then have "of_int (round_half_even (of_int i / (1 / 2 ^ n))) * (1 / 2 ^ n) = (of_int i :: real)"
    by simp
  then show ?thesis
    using False i by (simp add: int_to_float_def round_to_float_def Let_def e_def [symmetric] ulp)
qed

lemma round_to_float_0: "round_to_float 0 = 0"
  by (simp add: round_to_float_def)

lemma round_to_float_1: "round_to_float 1 = 1"
  using int_to_float_exact [of 1] by (simp add: int_to_float_def)

lemma int_to_float_mono: "0 \<le> i \<Longrightarrow> i \<le> j \<Longrightarrow> int_to_float i \<le> int_to_float j"
  unfolding int_to_float_def by (rule round_to_float_mono) simp_all

lemma float_div_unit_interval:
  assumes "0 \<le> i" "i \<le> u" "0 < u"
  shows "0 \<le> float_div (int_to_float i) (int_to_float u) \<and>
         float_div (int_to_float i) (int_to_float u) \<le> 1"
proof -
  have a: "0 \<le> int_to_float i" using int_to_float_mono [of 0 i] assms(1) int_to_float_exact [of 0] by simp
  have b: "int_to_float i \<le> int_to_float u" using assms by (intro int_to_float_mono)
  have "int_to_float 1 \<le> int_to_float u" using assms(3) by (intro int_to_float_mono) simp_all
  then have c: "1 \<le> int_to_float u" using int_to_float_exact [of 1] by simp
  have q: "0 \<le> int_to_float i / int_to_float u" "int_to_float i / int_to_float u \<le> 1"
    using a b c by simp_all
  have "round_to_float 0 \<le> round_to_float (int_to_float i / int_to_float u)"
    using q(1) by (intro round_to_float_mono) simp_all
  moreover have "round_to_float (int_to_float i / int_to_float u) \<le> round_to_float 1"
    using q by (intro round_to_float_mono)
  ultimately show ?thesis
    unfolding float_div_def by (simp add: round_to_float_0 round_to_float_1)
qed

lemma float_div_self:
  assumes "0 < u"
  shows "float_div (int_to_float u) (int_to_float u) = 1"
proof -
  have "int_to_float 1 \<le> int_to_float u" using assms by (intro int_to_float_mono) simp_all
  then have "1 \<le> int_to_float u" using int_to_float_exact [of 1] by simp
  then show ?thesis by (simp add: float_div_def round_to_float_1)
qed

section \<open>The similarity engine computes the specified score\<close>

lemma intersection_find_eq:
  "distinct (map node_key chain) \<Longrightarrow>
   intersection_find e chain =
     (if node_key e \<in> node_key ` set chain
      then min (node_count e) (key_count (node_key e) chain) else 0)"
proof (induction chain)
  case Nil then show ?case by simp
next
  case (Cons t rest)
  then have a: "node_key t \<notin> node_key ` set rest" by simp
  show ?case
  proof (cases "node_key e = node_key t")
    case True
    then have "key_count (node_key e) (t # rest) = node_count t"
      using a by (simp add: key_count_Cons key_count_absent)
    then show ?thesis using True by (simp add: strcmp_eq_def node_key_def min_def)
  next
    case False
    then have "intersection_find e (t # rest) = intersection_find e rest"
      by (simp add: strcmp_eq_def node_key_def)
    then show ?thesis using False Cons by (auto simp: key_count_Cons)
  qed
qed

lemma distinct_concat_nth:
  "distinct (map f (concat xs)) \<Longrightarrow> i < length xs \<Longrightarrow> distinct (map f (xs ! i))"
proof (induction xs arbitrary: i)
  case Nil then show ?case by simp
next
  case (Cons x xs) then show ?case by (cases i) auto
qed

lemma sum_list_all_zero:
  fixes f :: "'a \<Rightarrow> int"
  shows "\<forall>x \<in> set xs. f x = 0 \<Longrightarrow> (\<Sum>x\<leftarrow>xs. f x) = 0"
  by (induction xs) auto

lemma key_count_bucket:
  assumes inv: "ht_inv cs ht"
  shows "shingle_count ht k = key_count k (ht_table ht ! bucket_index cs (ht_size ht) k)"
proof -
  define i where "i = bucket_index cs (ht_size ht) k"
  have sz: "0 < ht_size ht" "ht_size ht < 2 ^ 31" "length (ht_table ht) = nat (ht_size ht)"
    using inv by (simp_all add: ht_inv_def)
  have i: "i < length (ht_table ht)"
    using bucket_index_less [OF sz(1,2)] sz(3) by (simp add: i_def)
  let ?f = "\<lambda>e. if node_key e = k then node_count e else 0"
  have "\<forall>e \<in> set (concat ((ht_table ht)[i := []])). ?f e = 0"
  proof
    fix e assume "e \<in> set (concat ((ht_table ht)[i := []]))"
    then obtain ys where ys: "ys \<in> set ((ht_table ht)[i := []])" "e \<in> set ys" by auto
    then obtain j where j: "j < length (ht_table ht)" "(ht_table ht)[i := []] ! j = ys"
      by (auto simp: in_set_conv_nth)
    then have ne: "j \<noteq> i" using ys(2) i by auto
    then have "e \<in> set (ht_table ht ! j)" using j ys(2) by simp
    then have "bucket_index cs (ht_size ht) (node_key e) = j" by (rule ht_inv_bucket [OF inv j(1)])
    then have "node_key e \<noteq> k" using ne by (auto simp: i_def)
    then show "?f e = 0" by simp
  qed
  then have "(\<Sum>e\<leftarrow>concat ((ht_table ht)[i := []]). ?f e) = 0"
    by (rule sum_list_all_zero)
  then show ?thesis
    using concat_update_sum [OF i, of ?f "[]"]
    by (simp add: shingle_count_def key_count_def entries_def i_def)
qed

lemma match_count_eq:
  assumes inv: "ht_inv cs ht2" and nn: "0 \<le> node_count e"
  shows "match_count cs ht2 e = min (node_count e) (shingle_count ht2 (node_key e))"
proof -
  define i where "i = bucket_index cs (ht_size ht2) (node_key e)"
  have sz: "0 < ht_size ht2" "ht_size ht2 < 2 ^ 31" "length (ht_table ht2) = nat (ht_size ht2)"
    using inv by (simp_all add: ht_inv_def)
  have i: "i < length (ht_table ht2)"
    using bucket_index_less [OF sz(1,2)] sz(3) by (simp add: i_def)
  have "distinct (map node_key (concat (ht_table ht2)))"
    using inv by (simp add: ht_inv_def entries_def)
  then have d: "distinct (map node_key (ht_table ht2 ! i))" using i by (rule distinct_concat_nth)
  have s: "shingle_count ht2 (node_key e) = key_count (node_key e) (ht_table ht2 ! i)"
    unfolding i_def by (rule key_count_bucket [OF inv])
  show ?thesis
    unfolding match_count_def i_def [symmetric] s intersection_find_eq [OF d]
    using nn by (simp add: key_count_absent)
qed

lemma dom_shingle_set_of:
  "ht_inv cs ht \<Longrightarrow> dom (shingle_set_of ht) = node_key ` set (entries ht)"
  by (auto simp: dom_def shingle_set_of_inv ht_inv_keys)

lemma the_shingle_set_of:
  "ht_inv cs ht \<Longrightarrow> k \<in> dom (shingle_set_of ht) \<Longrightarrow> the (shingle_set_of ht k) = shingle_count ht k"
  by (auto simp: dom_def shingle_set_of_inv split: if_splits)

lemma shingle_count_outside:
  "ht_inv cs ht \<Longrightarrow> k \<notin> dom (shingle_set_of ht) \<Longrightarrow> shingle_count ht k = 0"
  by (simp add: dom_shingle_set_of shingle_count_def key_count_absent)

lemma sum_entries_keys:
  assumes inv: "ht_inv cs ht"
  shows "(\<Sum>e\<leftarrow>entries ht. g (node_key e)) = (\<Sum>k \<in> dom (shingle_set_of ht). g k)"
proof -
  have d: "distinct (map node_key (entries ht))" using inv by (simp add: ht_inv_def)
  have "(\<Sum>e\<leftarrow>entries ht. g (node_key e)) = (\<Sum>k\<leftarrow>map node_key (entries ht). g k)"
    by (simp add: comp_def)
  also have "\<dots> = sum g (set (map node_key (entries ht)))"
    by (rule sum_list_distinct_conv_sum_set [OF d])
  finally show ?thesis by (simp add: dom_shingle_set_of [OF inv])
qed

lemma get_intersection_count_spec:
  assumes inv1: "ht_inv cs ht1" and inv2: "ht_inv cs ht2"
  shows "get_intersection_count cs ht1 ht2 =
     Some (spec_intersection (shingle_set_of ht1) (shingle_set_of ht2))"
proof -
  let ?A = "shingle_set_of ht1" and ?B = "shingle_set_of ht2"
  let ?g = "\<lambda>k. min (shingle_count ht1 k) (shingle_count ht2 k)"
  have sz: "0 < ht_size ht2" "ht_size ht2 < 2 ^ 31" "length (ht_table ht2) = nat (ht_size ht2)"
    "length (ht_table ht1) = nat (ht_size ht1)"
    using inv1 inv2 by (simp_all add: ht_inv_def)
  have d: "distinct (map node_key (entries ht1))" and p: "\<forall>e \<in> set (entries ht1). 0 < node_count e"
    using inv1 by (simp_all add: ht_inv_def)
  have "\<forall>e \<in> set (entries ht1). match_count cs ht2 e = ?g (node_key e)"
  proof
    fix e assume e: "e \<in> set (entries ht1)"
    then have "0 \<le> node_count e" using p by force
    from match_count_eq [OF inv2 this] key_count_distinct [OF d e]
    show "match_count cs ht2 e = ?g (node_key e)" by (simp add: shingle_count_def)
  qed
  then have "(\<Sum>e\<leftarrow>entries ht1. match_count cs ht2 e) = (\<Sum>e\<leftarrow>entries ht1. ?g (node_key e))"
    by (intro arg_cong [of _ _ sum_list] map_cong) auto
  also have "\<dots> = (\<Sum>k \<in> dom ?A. ?g k)" by (rule sum_entries_keys [OF inv1])
  also have "\<dots> = (\<Sum>k \<in> dom ?A \<inter> dom ?B. ?g k)"
  proof (rule sum.mono_neutral_right)
    show "finite (dom ?A)" by (simp add: dom_shingle_set_of [OF inv1])
    show "dom ?A \<inter> dom ?B \<subseteq> dom ?A" by blast
    show "\<forall>k \<in> dom ?A - dom ?A \<inter> dom ?B. ?g k = 0"
    proof
      fix k assume k: "k \<in> dom ?A - dom ?A \<inter> dom ?B"
      then have "shingle_count ht2 k = 0" using shingle_count_outside [OF inv2] by blast
      moreover have "0 < shingle_count ht1 k"
        using k the_shingle_set_of [OF inv1, of k] shingle_set_of_inv [OF inv1, of k]
        by (auto split: if_splits)
      ultimately show "?g k = 0" by simp
    qed
  qed
  also have "\<dots> = spec_intersection ?A ?B"
    unfolding spec_intersection_def
    by (rule sum.cong) (simp_all add: the_shingle_set_of [OF inv1] the_shingle_set_of [OF inv2])
  finally show ?thesis by (simp add: get_intersection_count_eq [OF sz])
qed

lemma total_count_spec:
  assumes inv: "ht_inv cs ht"
  shows "total_count ht = spec_total (shingle_set_of ht)"
proof -
  have d: "distinct (map node_key (entries ht))" using inv by (simp add: ht_inv_def)
  have "\<forall>e \<in> set (entries ht). node_count e = shingle_count ht (node_key e)"
    using key_count_distinct [OF d] by (simp add: shingle_count_def)
  then have "(\<Sum>e\<leftarrow>entries ht. node_count e) = (\<Sum>e\<leftarrow>entries ht. shingle_count ht (node_key e))"
    by (intro arg_cong [of _ _ sum_list] map_cong) auto
  also have "\<dots> = (\<Sum>k \<in> dom (shingle_set_of ht). shingle_count ht k)"
    by (rule sum_entries_keys [OF inv])
  also have "\<dots> = spec_total (shingle_set_of ht)"
    unfolding spec_total_def by (rule sum.cong) (simp_all add: the_shingle_set_of [OF inv])
  finally show ?thesis by (simp add: total_count_def)
qed

lemma get_union_count_spec:
  assumes inv1: "ht_inv cs ht1" and inv2: "ht_inv cs ht2"
  shows "get_union_count ht1 ht2 =
     Some (spec_total (shingle_set_of ht1) + spec_total (shingle_set_of ht2))"
proof -
  have sz: "length (ht_table ht1) = nat (ht_size ht1)" "length (ht_table ht2) = nat (ht_size ht2)"
    using inv1 inv2 by (simp_all add: ht_inv_def)
  show ?thesis
    by (simp add: get_union_count_eq [OF sz] total_count_spec [OF inv1] total_count_spec [OF inv2])
qed

lemma shingle_set_of_pos:
  "ht_inv cs ht \<Longrightarrow> k \<in> dom (shingle_set_of ht) \<Longrightarrow> 0 < the (shingle_set_of ht k)"
  by (auto simp: dom_def shingle_set_of_inv split: if_splits)

lemma finite_dom_shingle_set_of: "ht_inv cs ht \<Longrightarrow> finite (dom (shingle_set_of ht))"
  by (simp add: dom_shingle_set_of)

lemma spec_intersection_commute: "spec_intersection A B = spec_intersection B A"
  by (simp add: spec_intersection_def Int_commute min.commute)

lemma spec_score_commute: "spec_score A B = spec_score B A"
  by (simp add: spec_score_def spec_union_def spec_intersection_commute add.commute)

lemma spec_intersection_le_total:
  assumes "finite (dom A)" and "\<forall>k \<in> dom A. 0 < the (A k)" and "\<forall>k \<in> dom B. 0 < the (B k)"
  shows "0 \<le> spec_intersection A B \<and> spec_intersection A B \<le> spec_total A"
proof -
  have "0 \<le> spec_intersection A B"
    unfolding spec_intersection_def using assms(2,3) by (intro sum_nonneg) force
  moreover have "spec_intersection A B \<le> (\<Sum>k \<in> dom A \<inter> dom B. the (A k))"
    unfolding spec_intersection_def by (intro sum_mono) simp
  moreover have "(\<Sum>k \<in> dom A \<inter> dom B. the (A k)) \<le> spec_total A"
    unfolding spec_total_def using assms(1,2) by (intro sum_mono2) force+
  ultimately show ?thesis by linarith
qed

lemma spec_bounds:
  assumes "ht_inv cs ht1" "ht_inv cs ht2"
  shows "0 \<le> spec_intersection (shingle_set_of ht1) (shingle_set_of ht2)"
    and "spec_intersection (shingle_set_of ht1) (shingle_set_of ht2) \<le> spec_total (shingle_set_of ht1)"
    and "spec_intersection (shingle_set_of ht1) (shingle_set_of ht2) \<le> spec_total (shingle_set_of ht2)"
proof -
  have p1: "\<forall>k \<in> dom (shingle_set_of ht1). 0 < the (shingle_set_of ht1 k)"
    using shingle_set_of_pos [OF assms(1)] by blast
  have p2: "\<forall>k \<in> dom (shingle_set_of ht2). 0 < the (shingle_set_of ht2 k)"
    using shingle_set_of_pos [OF assms(2)] by blast
  note a = spec_intersection_le_total [OF finite_dom_shingle_set_of [OF assms(1)] p1 p2]
  note b = spec_intersection_le_total [OF finite_dom_shingle_set_of [OF assms(2)] p2 p1]
  show "0 \<le> spec_intersection (shingle_set_of ht1) (shingle_set_of ht2)" using a by simp
  show "spec_intersection (shingle_set_of ht1) (shingle_set_of ht2) \<le> spec_total (shingle_set_of ht1)"
    using a by simp
  show "spec_intersection (shingle_set_of ht1) (shingle_set_of ht2) \<le> spec_total (shingle_set_of ht2)"
    using b by (simp add: spec_intersection_commute)
qed

lemma spec_intersection_self:
  "spec_intersection A A = spec_total A"
  by (simp add: spec_intersection_def spec_total_def)

lemma built_tables:
  assumes "0 \<in> set text" "0 < n" "n < 2 ^ 31"
  shows "\<exists>ht. generate_ngrams cs text (create_hash_table n) = Some ht \<and> ht_inv cs ht \<and>
     shingle_set_of ht = spec_build N_GRAM (c_str text) \<and>
     spec_total (shingle_set_of ht) = int (length (spec_windows N_GRAM (c_str text)))"
proof -
  from generate_ngrams_built [OF assms, of cs] obtain ht where
    ht: "generate_ngrams cs text (create_hash_table n) = Some ht" "ht_inv cs ht"
      "\<forall>k. shingle_count ht k = int (count_list (spec_windows N_GRAM (c_str text)) k)"
      "total_count ht = int (length (spec_windows N_GRAM (c_str text)))"
    by blast
  show ?thesis
    using ht built_shingle_set [OF ht(2,3)] total_count_spec [OF ht(2)] by auto
qed

lemma calculate_jaccard_similarity_spec:
  assumes inv1: "ht_inv cs ht1" and inv2: "ht_inv cs ht2"
  shows "calculate_jaccard_similarity cs ht1 ht2 =
     Some (float_score (shingle_set_of ht1) (shingle_set_of ht2))"
proof -
  note b = spec_bounds [OF inv1 inv2]
  have "0 \<le> spec_union (shingle_set_of ht1) (shingle_set_of ht2)"
    using b by (simp add: spec_union_def)
  then show ?thesis
    by (auto simp: calculate_jaccard_similarity_def get_intersection_count_spec [OF inv1 inv2]
        get_union_count_spec [OF inv1 inv2] float_score_def spec_union_def Let_def)
qed

lemma float_score_commute: "float_score A B = float_score B A"
  by (simp add: float_score_def spec_union_def spec_intersection_commute add.commute)

lemma float_score_unit_interval:
  assumes "0 \<le> spec_intersection A B" and "spec_intersection A B \<le> spec_union A B"
  shows "0 \<le> float_score A B \<and> float_score A B \<le> 1"
proof (cases "0 < spec_union A B")
  case True
  from float_div_unit_interval [OF assms True] show ?thesis using True by (simp add: float_score_def)
next
  case False
  then show ?thesis by (simp add: float_score_def)
qed

lemma float_score_round:
  assumes "0 \<le> spec_intersection A B" and "spec_intersection A B \<le> spec_union A B"
    and "spec_union A B < 2 ^ 24"
  shows "float_score A B = round_to_float (spec_score A B)"
proof (cases "0 < spec_union A B")
  case True
  have "int_to_float (spec_intersection A B) = of_int (spec_intersection A B)"
    using assms by (intro int_to_float_exact) simp_all
  moreover have "int_to_float (spec_union A B) = of_int (spec_union A B)"
    using assms True by (intro int_to_float_exact) simp_all
  ultimately show ?thesis using True by (simp add: float_score_def spec_score_def float_div_def)
next
  case False
  then show ?thesis by (simp add: float_score_def spec_score_def round_to_float_0)
qed

lemma float_score_range:
  assumes "ht_inv cs ht1" "ht_inv cs ht2"
  shows "0 \<le> float_score (shingle_set_of ht1) (shingle_set_of ht2) \<and>
         float_score (shingle_set_of ht1) (shingle_set_of ht2) \<le> 1"
proof -
  note b = spec_bounds [OF assms]
  have "spec_intersection (shingle_set_of ht1) (shingle_set_of ht2) \<le>
      spec_union (shingle_set_of ht1) (shingle_set_of ht2)"
    using b by (simp add: spec_union_def)
  then show ?thesis using b(1) by (intro float_score_unit_interval)
qed

lemma float_score_self: "0 < spec_total A \<Longrightarrow> float_score A A = 1"
  by (simp add: float_score_def spec_union_def spec_intersection_self float_div_self)

lemma round_to_float_unit_interval:
  assumes "0 \<le> x" "x \<le> 1"
  shows "0 \<le> round_to_float x \<and> round_to_float x \<le> 1"
proof -
  have "round_to_float 0 \<le> round_to_float x" using assms(1) by (intro round_to_float_mono) simp_all
  moreover have "round_to_float x \<le> round_to_float 1" using assms by (intro round_to_float_mono)
  ultimately show ?thesis by (simp add: round_to_float_0 round_to_float_1)
qed

section \<open>The specified mapping of a text\<close>

lemma dom_spec_build: "dom (spec_build n s) = set (spec_windows n s)"
  by (auto simp: spec_build_eq dom_def)

lemma the_spec_build:
  "k \<in> set (spec_windows n s) \<Longrightarrow> the (spec_build n s k) = int (count_list (spec_windows n s) k)"
  by (simp add: spec_build_eq)

lemma spec_build_pos: "\<forall>k \<in> dom (spec_build n s). 0 < the (spec_build n s k)"
  by (simp add: dom_spec_build the_spec_build count_list_pos_iff)

lemma spec_total_build: "spec_total (spec_build n s) = int (length (spec_windows n s))"
proof -
  have "spec_total (spec_build n s) =
      (\<Sum>k \<in> set (spec_windows n s). int (count_list (spec_windows n s) k))"
    unfolding spec_total_def dom_spec_build by (rule sum.cong) (simp_all add: the_spec_build)
  also have "\<dots> = int (\<Sum>k \<in> set (spec_windows n s). count_list (spec_windows n s) k)"
    by simp
  also have "\<dots> = int (length (spec_windows n s))"
    by (simp add: sum_count_set)
  finally show ?thesis .
qed

lemma spec_score_self: "0 < spec_total A \<Longrightarrow> spec_score A A = 1"
  by (simp add: spec_score_def spec_union_def spec_intersection_self)

lemma spec_score_build_range:
  "0 \<le> spec_score (spec_build n s1) (spec_build m s2) \<and>
   spec_score (spec_build n s1) (spec_build m s2) \<le> 1"
proof -
  let ?A = "spec_build n s1" and ?B = "spec_build m s2"
  have f: "finite (dom ?A)" "finite (dom ?B)" by (simp_all add: dom_spec_build)
  note a = spec_intersection_le_total [OF f(1) spec_build_pos spec_build_pos, of m s2]
  note b = spec_intersection_le_total [OF f(2) spec_build_pos spec_build_pos, of n s1]
  have "spec_intersection ?A ?B \<le> spec_union ?A ?B"
    using a b by (simp add: spec_union_def spec_intersection_commute [of ?B ?A])
  then show ?thesis using a by (simp add: spec_score_def)
qed

lemma spec_windows_length: "length (spec_windows n s) = length s + 1 - n"
  by (simp add: spec_windows_def)

section \<open>The driver\<close>

lemma c_str_append_nul_any: "c_str (xs @ 0 # ys) = c_str xs"
  unfolding c_str_def by (induction xs) auto

lemma lower_char_nonzero: "c \<noteq> 0 \<Longrightarrow> lower_char c \<noteq> 0"
  using lower_alnum [of c] by (auto simp: lower_char_def)

lemma take_min_length: "take (min (length xs) n) xs = take n xs"
  by (simp add: min_def)

lemma read_file_eq:
  "read_file junk file =
     (take (min (length file) (MAX_FILE_SIZE - 1)) file @
        0 # map junk [Suc (min (length file) (MAX_FILE_SIZE - 1))..<MAX_FILE_SIZE],
      min (length file) (MAX_FILE_SIZE - 1))"
proof -
  define len where "len = min (length file) (MAX_FILE_SIZE - 1)"
  have l: "len < MAX_FILE_SIZE" by (simp add: len_def MAX_FILE_SIZE_def)
  have t: "length (take len file) = len" by (simp add: len_def)
  have "drop len (map junk [0..<MAX_FILE_SIZE]) = map junk [len..<MAX_FILE_SIZE]"
    by (simp add: drop_map)
  also have "\<dots> = junk len # map junk [Suc len..<MAX_FILE_SIZE]"
    using l by (simp add: upt_conv_Cons)
  finally have "(take len file @ drop len (map junk [0..<MAX_FILE_SIZE]))[len := 0] =
      take len file @ 0 # map junk [Suc len..<MAX_FILE_SIZE]"
    using t by (simp add: list_update_append)
  then show ?thesis unfolding read_file_def Let_def len_def [symmetric] by simp
qed

lemma normalize_pipeline:
  assumes "0 \<in> set buf"
  shows "\<exists>t u. to_lower_case buf = Some t \<and> remove_punctuation t = Some u \<and>
           0 \<in> set u \<and> c_str u = normalize_string (c_str buf) \<and> c_str t = map lower_char (c_str buf)"
proof -
  obtain post where b: "buf = c_str buf @ 0 # post" using nul_split [OF assms] ..
  have z: "0 \<notin> set (c_str buf)" by (rule c_str_no_nul)
  let ?l = "map lower_char (c_str buf)"
  have zl: "0 \<notin> set ?l"
  proof
    assume "0 \<in> set ?l"
    then obtain x where x: "x \<in> set (c_str buf)" "lower_char x = 0" by auto
    then have "x \<noteq> 0" using z by auto
    then show False using x(2) lower_char_nonzero by blast
  qed
  have t: "to_lower_case (c_str buf @ 0 # post) = Some (?l @ 0 # post)"
    by (rule to_lower_case_eq [OF z])
  have u: "remove_punctuation (?l @ 0 # post) =
     Some (filter keep_char ?l @ 0 # drop (Suc (length (filter keep_char ?l))) (?l @ 0 # post))"
    by (rule remove_punctuation_eq [OF zl])
  have zf: "0 \<notin> set (filter keep_char ?l)" using zl by simp
  have "c_str (filter keep_char ?l @ 0 # drop (Suc (length (filter keep_char ?l))) (?l @ 0 # post)) =
      normalize_string (c_str buf)"
    by (simp only: c_str_append_nul [OF zf] normalize_string_def)
  moreover have "c_str (?l @ 0 # post) = ?l" by (rule c_str_append_nul [OF zl])
  ultimately show ?thesis using t u b by (metis in_set_conv_decomp)
qed

lemma normalized_length: "length (normalize_string (c_str (take n f))) \<le> n"
proof -
  have "length (normalize_string (c_str (take n f))) \<le> length (c_str (take n f))"
    unfolding normalize_string_def using length_filter_le [of keep_char] by simp
  also have "\<dots> \<le> length (take n f)"
    unfolding c_str_def by (rule length_takeWhile_le)
  also have "\<dots> \<le> n" by simp
  finally show ?thesis .
qed

lemma spec_build_score_bounds:
  "0 \<le> spec_intersection (spec_build n s1) (spec_build m s2)"
  "spec_intersection (spec_build n s1) (spec_build m s2) \<le>
     spec_union (spec_build n s1) (spec_build m s2)"
  "spec_union (spec_build n s1) (spec_build m s2) \<le>
     int (length (spec_windows n s1)) + int (length (spec_windows m s2))"
proof -
  let ?A = "spec_build n s1" and ?B = "spec_build m s2"
  have f: "finite (dom ?A)" "finite (dom ?B)" by (simp_all add: dom_spec_build)
  note a = spec_intersection_le_total [OF f(1) spec_build_pos spec_build_pos, of m s2]
  note b = spec_intersection_le_total [OF f(2) spec_build_pos spec_build_pos, of n s1]
  show "0 \<le> spec_intersection ?A ?B" using a by simp
  show "spec_intersection ?A ?B \<le> spec_union ?A ?B"
    using a b by (simp add: spec_union_def spec_intersection_commute [of ?B ?A])
  show "spec_union ?A ?B \<le> int (length (spec_windows n s1)) + int (length (spec_windows m s2))"
    using a by (simp add: spec_union_def spec_total_build)
qed

lemma main_similarity_eq:
  "main_similarity cs junk1 junk2 file1 file2 =
     Some (round_to_float (spec_score
       (spec_build N_GRAM (normalize_string (c_str (take (MAX_FILE_SIZE - 1) file1))))
       (spec_build N_GRAM (normalize_string (c_str (take (MAX_FILE_SIZE - 1) file2))))))"
proof -
  let ?s1 = "normalize_string (c_str (take (MAX_FILE_SIZE - 1) file1))"
  let ?s2 = "normalize_string (c_str (take (MAX_FILE_SIZE - 1) file2))"
  have sz: "0 < HASH_TABLE_SIZE" "HASH_TABLE_SIZE < 2 ^ 31" by (simp_all add: HASH_TABLE_SIZE_def)
  have rd: "0 \<in> set (fst (read_file junk f)) \<and>
      c_str (fst (read_file junk f)) = c_str (take (MAX_FILE_SIZE - 1) f)" for junk f
    unfolding read_file_eq fst_conv c_str_append_nul_any take_min_length by simp
  have pipe: "\<exists>t u ht. to_lower_case (fst (read_file junk f)) = Some t \<and>
      remove_punctuation t = Some u \<and>
      generate_ngrams cs u (create_hash_table HASH_TABLE_SIZE) = Some ht \<and> ht_inv cs ht \<and>
      shingle_set_of ht = spec_build N_GRAM (normalize_string (c_str (take (MAX_FILE_SIZE - 1) f)))"
    for junk f
  proof -
    from normalize_pipeline [of "fst (read_file junk f)"] rd [of junk f] obtain t u where
      tu: "to_lower_case (fst (read_file junk f)) = Some t" "remove_punctuation t = Some u"
        "0 \<in> set u" "c_str u = normalize_string (c_str (take (MAX_FILE_SIZE - 1) f))"
      by auto
    from built_tables [OF tu(3) sz, of cs] show ?thesis using tu by auto
  qed
  from pipe [of junk1 file1] obtain t1 u1 A where
    a: "to_lower_case (fst (read_file junk1 file1)) = Some t1" "remove_punctuation t1 = Some u1"
      "generate_ngrams cs u1 (create_hash_table HASH_TABLE_SIZE) = Some A" "ht_inv cs A"
      "shingle_set_of A = spec_build N_GRAM ?s1"
    by blast
  from pipe [of junk2 file2] obtain t2 u2 B where
    b: "to_lower_case (fst (read_file junk2 file2)) = Some t2" "remove_punctuation t2 = Some u2"
      "generate_ngrams cs u2 (create_hash_table HASH_TABLE_SIZE) = Some B" "ht_inv cs B"
      "shingle_set_of B = spec_build N_GRAM ?s2"
    by blast
  have l: "length (spec_windows N_GRAM s) \<le> length s" for s :: "byte list"
    by (simp add: spec_windows_length N_GRAM_def)
  have "int (length (spec_windows N_GRAM ?s1)) + int (length (spec_windows N_GRAM ?s2)) \<le>
      int (MAX_FILE_SIZE - 1) + int (MAX_FILE_SIZE - 1)"
    using l [of ?s1] l [of ?s2] normalized_length [of "MAX_FILE_SIZE - 1" file1]
      normalized_length [of "MAX_FILE_SIZE - 1" file2] by linarith
  also have "\<dots> < 2 ^ 24" by (simp add: MAX_FILE_SIZE_def)
  finally have "spec_union (spec_build N_GRAM ?s1) (spec_build N_GRAM ?s2) < 2 ^ 24"
    using spec_build_score_bounds(3) [of N_GRAM ?s1 N_GRAM ?s2] by linarith
  then have r: "float_score (spec_build N_GRAM ?s1) (spec_build N_GRAM ?s2) =
      round_to_float (spec_score (spec_build N_GRAM ?s1) (spec_build N_GRAM ?s2))"
    by (intro float_score_round spec_build_score_bounds)
  have c: "calculate_jaccard_similarity cs A B =
      Some (round_to_float (spec_score (spec_build N_GRAM ?s1) (spec_build N_GRAM ?s2)))"
    unfolding calculate_jaccard_similarity_spec [OF a(4) b(4)] a(5) b(5) r ..
  show ?thesis
    unfolding main_similarity_def Let_def by (simp add: a(1,2,3) b(1,2,3) c)
qed

section \<open>A worked example\<close>

lemma example_tables:
  "generate_ngrams True (text_abcabc @ [0]) (create_hash_table 2) = Some table_abcabc_2"
  "generate_ngrams True (text_abcabd @ [0]) (create_hash_table 3) = Some table_abcabd_3"
  "generate_ngrams True (text_abcabc @ [0]) (create_hash_table 3) = Some table_abcabc_3"
  by code_simp+

lemma example_hyps:
  "(0::byte) \<in> set (text_abcabc @ [0])" "(0::byte) \<in> set (text_abcabd @ [0])"
  "(0::int) < 2" "(2::int) < 2 ^ 31" "(0::int) < 3" "(3::int) < 2 ^ 31"
  by simp_all

lemma example_strings:
  "c_str (text_abcabc @ [0]) = text_abcabc" "c_str (text_abcabd @ [0]) = text_abcabd"
  "normalize_string (c_str text_abcabc) = text_abcabc"
  "normalize_string (c_str text_abcabd) = text_abcabd"
  by code_simp+

lemma example_take:
  "take (MAX_FILE_SIZE - 1) text_abcabc = text_abcabc"
  "take (MAX_FILE_SIZE - 1) text_abcabd = text_abcabd"
  by (simp_all add: MAX_FILE_SIZE_def)

lemma example_inv:
  "ht_inv True table_abcabc_2" "ht_inv True table_abcabd_3"
  "shingle_set_of table_abcabc_2 = spec_build N_GRAM text_abcabc"
  "shingle_set_of table_abcabd_3 = spec_build N_GRAM text_abcabd"
  using built_tables [OF example_hyps(1,3,4), of True] built_tables [OF example_hyps(2,5,6), of True]
  unfolding example_tables example_strings by auto

lemma example_counts:
  "get_intersection_count True table_abcabc_2 table_abcabd_3 = Some 3"
  "get_union_count table_abcabc_2 table_abcabd_3 = Some 8"
  by code_simp+

lemma example_spec:
  "spec_intersection (spec_build N_GRAM text_abcabc) (spec_build N_GRAM text_abcabd) = 3"
  "spec_union (spec_build N_GRAM text_abcabc) (spec_build N_GRAM text_abcabd) = 5"
  "spec_score (spec_build N_GRAM text_abcabc) (spec_build N_GRAM text_abcabd) = 3 / 5"
proof -
  let ?A = "spec_build N_GRAM text_abcabc" and ?B = "spec_build N_GRAM text_abcabd"
  show i: "spec_intersection ?A ?B = 3"
    using get_intersection_count_spec [OF example_inv(1,2)]
    unfolding example_counts example_inv by simp
  have "spec_total ?A + spec_total ?B = 8"
    using get_union_count_spec [OF example_inv(1,2)]
    unfolding example_counts example_inv by simp
  then show u: "spec_union ?A ?B = 5" using i by (simp add: spec_union_def)
  show "spec_score ?A ?B = 3 / 5" using i u by (simp add: spec_score_def)
qed

lemma example_scores:
  "calculate_jaccard_similarity True table_abcabc_2 table_abcabd_3 = Some (5033165 / 8388608)"
  "calculate_jaccard_similarity True table_abcabd_3 table_abcabc_2 = Some (5033165 / 8388608)"
  "calculate_jaccard_similarity True table_abcabc_2 table_abcabc_3 = Some 1"
  "calculate_jaccard_similarity True table_abcabc_2 table_abcabc_2 = Some 1"
  "round_to_float (3 / 5) = 5033165 / 8388608"
  by code_simp+

lemma example_main_similarity:
  "main_similarity True of_nat of_nat text_abcabc text_abcabd = Some (5033165 / 8388608)"
  unfolding main_similarity_eq example_take example_strings example_spec example_scores ..

section \<open>SimilarityEngine: the claims\<close>

text \<open>
  C1, as the code has it.  For every pair of ShingleSets, that is of tables built by
  \<open>generate_ngrams\<close> from two NUL-terminated text buffers (with table sizes that are positive
  \<open>int\<close>s), \<open>get_intersection_count\<close> returns the specified Intersection (the sum over the keys
  present in both mappings of the smaller count) and \<open>union_total\<close> is the specified Union
  (the two totals minus Intersection); \<open>calculate_jaccard_similarity\<close> returns their quotient
  in single precision, both converted to \<open>float\<close> and divided as \<open>float\<close>s, and 0 when Union
  is 0.  The driver's score for two files is the exact quotient Intersection / Union of the
  two normalized texts rounded to the nearest \<open>float\<close>.
\<close>

theorem calculate_jaccard_similarity_float_score:
  assumes "0 \<in> set text1" and "0 \<in> set text2"
    and "0 < n1" and "n1 < 2 ^ 31" and "0 < n2" and "n2 < 2 ^ 31"
  shows "(\<exists>A B i u.
     generate_ngrams cs text1 (create_hash_table n1) = Some A \<and>
     generate_ngrams cs text2 (create_hash_table n2) = Some B \<and>
     shingle_set_of A = spec_build N_GRAM (c_str text1) \<and>
     shingle_set_of B = spec_build N_GRAM (c_str text2) \<and>
     get_intersection_count cs A B = Some i \<and>
     i = spec_intersection (shingle_set_of A) (shingle_set_of B) \<and>
     get_union_count A B = Some u \<and>
     u - i = spec_union (shingle_set_of A) (shingle_set_of B) \<and>
     calculate_jaccard_similarity cs A B =
       Some (float_score (shingle_set_of A) (shingle_set_of B))) \<and>
     main_similarity cs junk1 junk2 file1 file2 =
       Some (round_to_float (spec_score
         (spec_build N_GRAM (normalize_string (c_str (take (MAX_FILE_SIZE - 1) file1))))
         (spec_build N_GRAM (normalize_string (c_str (take (MAX_FILE_SIZE - 1) file2))))))"
proof -
  from built_tables [OF assms(1,3,4), of cs] obtain A where
    A: "generate_ngrams cs text1 (create_hash_table n1) = Some A" "ht_inv cs A"
      "shingle_set_of A = spec_build N_GRAM (c_str text1)"
    by blast
  from built_tables [OF assms(2,5,6), of cs] obtain B where
    B: "generate_ngrams cs text2 (create_hash_table n2) = Some B" "ht_inv cs B"
      "shingle_set_of B = spec_build N_GRAM (c_str text2)"
    by blast
  note i = get_intersection_count_spec [OF A(2) B(2)]
  note u = get_union_count_spec [OF A(2) B(2)]
  note s = calculate_jaccard_similarity_spec [OF A(2) B(2)]
  have "spec_total (shingle_set_of A) + spec_total (shingle_set_of B) -
      spec_intersection (shingle_set_of A) (shingle_set_of B) =
      spec_union (shingle_set_of A) (shingle_set_of B)"
    by (simp add: spec_union_def)
  then have "\<exists>A B i u.
     generate_ngrams cs text1 (create_hash_table n1) = Some A \<and>
     generate_ngrams cs text2 (create_hash_table n2) = Some B \<and>
     shingle_set_of A = spec_build N_GRAM (c_str text1) \<and>
     shingle_set_of B = spec_build N_GRAM (c_str text2) \<and>
     get_intersection_count cs A B = Some i \<and>
     i = spec_intersection (shingle_set_of A) (shingle_set_of B) \<and>
     get_union_count A B = Some u \<and>
     u - i = spec_union (shingle_set_of A) (shingle_set_of B) \<and>
     calculate_jaccard_similarity cs A B =
       Some (float_score (shingle_set_of A) (shingle_set_of B))"
    using A(1,3) B(1,3) i u s by blast
  then show ?thesis using main_similarity_eq by blast
qed

theorem calculate_jaccard_similarity_float_score_witness:
  "(0::byte) \<in> set (text_abcabc @ [0]) \<and> (0::byte) \<in> set (text_abcabd @ [0]) \<and>
   (0::int) < 2 \<and> (2::int) < 2 ^ 31 \<and> (0::int) < 3 \<and> (3::int) < 2 ^ 31 \<and>
   generate_ngrams True (text_abcabc @ [0]) (create_hash_table 2) = Some table_abcabc_2 \<and>
   generate_ngrams True (text_abcabd @ [0]) (create_hash_table 3) = Some table_abcabd_3 \<and>
   get_intersection_count True table_abcabc_2 table_abcabd_3 = Some 3 \<and>
   spec_intersection (shingle_set_of table_abcabc_2) (shingle_set_of table_abcabd_3) = 3 \<and>
   get_union_count table_abcabc_2 table_abcabd_3 = Some 8 \<and>
   spec_union (shingle_set_of table_abcabc_2) (shingle_set_of table_abcabd_3) = 5 \<and>
   calculate_jaccard_similarity True table_abcabc_2 table_abcabd_3 = Some (5033165 / 8388608) \<and>
   float_score (shingle_set_of table_abcabc_2) (shingle_set_of table_abcabd_3) =
     5033165 / 8388608 \<and>
   main_similarity True of_nat of_nat text_abcabc text_abcabd = Some (5033165 / 8388608) \<and>
   round_to_float (3 / 5) = 5033165 / 8388608"
proof -
  from calculate_jaccard_similarity_float_score [OF example_hyps, where cs = True
      and ?junk1.0 = of_nat and ?junk2.0 = of_nat and ?file1.0 = text_abcabc
      and ?file2.0 = text_abcabd]
  have "spec_intersection (shingle_set_of table_abcabc_2) (shingle_set_of table_abcabd_3) = 3 \<and>
    spec_union (shingle_set_of table_abcabc_2) (shingle_set_of table_abcabd_3) = 5 \<and>
    float_score (shingle_set_of table_abcabc_2) (shingle_set_of table_abcabd_3) =
      5033165 / 8388608"
    unfolding example_tables by (auto simp: example_counts example_scores)
  then show ?thesis
    using example_hyps example_tables(1,2) example_counts example_scores(1,5)
      example_main_similarity by simp
qed

text \<open>
  The claim as stated, with the exact quotient, fails on the tables of \<open>abcabc\<close> and
  \<open>abcabd\<close>: Intersection is 3 and Union is 5, the exact quotient 3/5 is no \<open>float\<close>, and the
  code returns the nearest one, 5033165 / 8388608 (the bits 0x3f19999a).
\<close>

theorem calculate_jaccard_similarity_exact_counterexample:
  "generate_ngrams True (text_abcabc @ [0]) (create_hash_table 2) = Some table_abcabc_2 \<and>
   generate_ngrams True (text_abcabd @ [0]) (create_hash_table 3) = Some table_abcabd_3 \<and>
   spec_score (shingle_set_of table_abcabc_2) (shingle_set_of table_abcabd_3) = 3 / 5 \<and>
   calculate_jaccard_similarity True table_abcabc_2 table_abcabd_3 = Some (5033165 / 8388608) \<and>
   calculate_jaccard_similarity True table_abcabc_2 table_abcabd_3 \<noteq>
     Some (spec_score (shingle_set_of table_abcabc_2) (shingle_set_of table_abcabd_3))"
proof -
  have "spec_score (shingle_set_of table_abcabc_2) (shingle_set_of table_abcabd_3) = 3 / 5"
    unfolding example_inv by (rule example_spec)
  then show ?thesis using example_tables(1,2) example_scores(1) by simp
qed

section \<open>Symmetry, range and identity of the score\<close>

text \<open>
  C3. The tables built from any two NUL-terminated text buffers give the same score in
  either argument order, and the driver's result for two files is the same when the files
  are exchanged (whatever the uninitialised parts of the two arrays hold).
\<close>

theorem similarity_symmetric:
  assumes "0 \<in> set text1" and "0 \<in> set text2"
    and "0 < n1" and "n1 < 2 ^ 31" and "0 < n2" and "n2 < 2 ^ 31"
  shows "(\<exists>A B s.
     generate_ngrams cs text1 (create_hash_table n1) = Some A \<and>
     generate_ngrams cs text2 (create_hash_table n2) = Some B \<and>
     calculate_jaccard_similarity cs A B = Some s \<and>
     calculate_jaccard_similarity cs B A = Some s) \<and>
     main_similarity cs junk1 junk2 file1 file2 = main_similarity cs junk3 junk4 file2 file1"
proof -
  from built_tables [OF assms(1,3,4), of cs] obtain A where
    A: "generate_ngrams cs text1 (create_hash_table n1) = Some A" "ht_inv cs A"
    by blast
  from built_tables [OF assms(2,5,6), of cs] obtain B where
    B: "generate_ngrams cs text2 (create_hash_table n2) = Some B" "ht_inv cs B"
    by blast
  have "calculate_jaccard_similarity cs B A =
      Some (float_score (shingle_set_of A) (shingle_set_of B))"
    unfolding calculate_jaccard_similarity_spec [OF B(2) A(2)]
    by (simp add: float_score_commute)
  moreover note calculate_jaccard_similarity_spec [OF A(2) B(2)]
  moreover have "main_similarity cs junk1 junk2 file1 file2 = main_similarity cs junk3 junk4 file2 file1"
    unfolding main_similarity_eq by (simp add: spec_score_commute)
  ultimately show ?thesis using A(1) B(1) by blast
qed

theorem similarity_symmetric_witness:
  "(0::byte) \<in> set (text_abcabc @ [0]) \<and> (0::byte) \<in> set (text_abcabd @ [0]) \<and>
   (0::int) < 2 \<and> (2::int) < 2 ^ 31 \<and> (0::int) < 3 \<and> (3::int) < 2 ^ 31 \<and>
   generate_ngrams True (text_abcabc @ [0]) (create_hash_table 2) = Some table_abcabc_2 \<and>
   generate_ngrams True (text_abcabd @ [0]) (create_hash_table 3) = Some table_abcabd_3 \<and>
   calculate_jaccard_similarity True table_abcabc_2 table_abcabd_3 = Some (5033165 / 8388608) \<and>
   calculate_jaccard_similarity True table_abcabd_3 table_abcabc_2 = Some (5033165 / 8388608) \<and>
   main_similarity True of_nat of_nat text_abcabc text_abcabd = Some (5033165 / 8388608) \<and>
   main_similarity True of_nat of_nat text_abcabd text_abcabc = Some (5033165 / 8388608)"
proof -
  from similarity_symmetric [OF example_hyps, where cs = True and ?junk1.0 = of_nat
      and ?junk2.0 = of_nat and ?file1.0 = text_abcabc and ?file2.0 = text_abcabd
      and ?junk3.0 = of_nat and ?junk4.0 = of_nat]
  have "main_similarity True of_nat of_nat text_abcabd text_abcabc = Some (5033165 / 8388608)"
    unfolding example_main_similarity by simp
  then show ?thesis
    using example_hyps example_tables(1,2) example_scores(1,2) example_main_similarity by simp
qed

text \<open>
  C4. The score of the tables built from any two NUL-terminated text buffers lies between 0
  and 1, and so does the driver's result for any two files.
\<close>

theorem similarity_in_unit_interval:
  assumes "0 \<in> set text1" and "0 \<in> set text2"
    and "0 < n1" and "n1 < 2 ^ 31" and "0 < n2" and "n2 < 2 ^ 31"
  shows "(\<exists>A B s.
     generate_ngrams cs text1 (create_hash_table n1) = Some A \<and>
     generate_ngrams cs text2 (create_hash_table n2) = Some B \<and>
     calculate_jaccard_similarity cs A B = Some s \<and> 0 \<le> s \<and> s \<le> 1) \<and>
     (\<exists>s. main_similarity cs junk1 junk2 file1 file2 = Some s \<and> 0 \<le> s \<and> s \<le> 1)"
proof -
  from built_tables [OF assms(1,3,4), of cs] obtain A where
    A: "generate_ngrams cs text1 (create_hash_table n1) = Some A" "ht_inv cs A"
    by blast
  from built_tables [OF assms(2,5,6), of cs] obtain B where
    B: "generate_ngrams cs text2 (create_hash_table n2) = Some B" "ht_inv cs B"
    by blast
  note s = calculate_jaccard_similarity_spec [OF A(2) B(2)]
  note r = float_score_range [OF A(2) B(2)]
  have "\<exists>s. main_similarity cs junk1 junk2 file1 file2 = Some s \<and> 0 \<le> s \<and> s \<le> 1"
    unfolding main_similarity_eq
    using round_to_float_unit_interval spec_score_build_range by simp
  then show ?thesis using A(1) B(1) s r by blast
qed

theorem similarity_in_unit_interval_witness:
  "(0::byte) \<in> set (text_abcabc @ [0]) \<and> (0::byte) \<in> set (text_abcabd @ [0]) \<and>
   (0::int) < 2 \<and> (2::int) < 2 ^ 31 \<and> (0::int) < 3 \<and> (3::int) < 2 ^ 31 \<and>
   generate_ngrams True (text_abcabc @ [0]) (create_hash_table 2) = Some table_abcabc_2 \<and>
   generate_ngrams True (text_abcabd @ [0]) (create_hash_table 3) = Some table_abcabd_3 \<and>
   calculate_jaccard_similarity True table_abcabc_2 table_abcabd_3 = Some (5033165 / 8388608) \<and>
   main_similarity True of_nat of_nat text_abcabc text_abcabd = Some (5033165 / 8388608) \<and>
   (0::real) \<le> 5033165 / 8388608 \<and> (5033165 / 8388608 :: real) \<le> 1"
proof -
  from similarity_in_unit_interval [OF example_hyps, where cs = True and ?junk1.0 = of_nat
      and ?junk2.0 = of_nat and ?file1.0 = text_abcabc and ?file2.0 = text_abcabd]
  have "(0::real) \<le> 5033165 / 8388608 \<and> (5033165 / 8388608 :: real) \<le> 1"
    unfolding example_main_similarity by simp
  then show ?thesis
    using example_hyps example_tables(1,2) example_scores(1) example_main_similarity by simp
qed

text \<open>
  C5. For a NUL-terminated text buffer whose string has at least \<open>N_GRAM\<close> bytes (so that it
  produces at least one shingle), the score of two tables built from it, and of one such
  table with itself, is 1; the driver's result for a file given twice is 1 when the
  normalized content has at least \<open>N_GRAM\<close> bytes.
\<close>

theorem similarity_identity:
  assumes "0 \<in> set text" and "N_GRAM \<le> length (c_str text)"
    and "0 < n1" and "n1 < 2 ^ 31" and "0 < n2" and "n2 < 2 ^ 31"
    and "N_GRAM \<le> length (normalize_string (c_str (take (MAX_FILE_SIZE - 1) file1)))"
  shows "(\<exists>A B.
     generate_ngrams cs text (create_hash_table n1) = Some A \<and>
     generate_ngrams cs text (create_hash_table n2) = Some B \<and>
     calculate_jaccard_similarity cs A B = Some 1 \<and>
     calculate_jaccard_similarity cs A A = Some 1) \<and>
     main_similarity cs junk1 junk2 file1 file1 = Some 1"
proof -
  from built_tables [OF assms(1,3,4), of cs] obtain A where
    A: "generate_ngrams cs text (create_hash_table n1) = Some A" "ht_inv cs A"
      "shingle_set_of A = spec_build N_GRAM (c_str text)"
    by blast
  from built_tables [OF assms(1,5,6), of cs] obtain B where
    B: "generate_ngrams cs text (create_hash_table n2) = Some B" "ht_inv cs B"
      "shingle_set_of B = spec_build N_GRAM (c_str text)"
    by blast
  have t: "0 < spec_total (spec_build N_GRAM (c_str text))"
    using assms(2) by (simp add: spec_total_build spec_windows_length)
  have ab: "calculate_jaccard_similarity cs A B = Some 1"
    unfolding calculate_jaccard_similarity_spec [OF A(2) B(2)] A(3) B(3)
    by (simp add: float_score_self [OF t])
  have aa: "calculate_jaccard_similarity cs A A = Some 1"
    unfolding calculate_jaccard_similarity_spec [OF A(2) A(2)] A(3)
    by (simp add: float_score_self [OF t])
  have "0 < spec_total (spec_build N_GRAM (normalize_string (c_str (take (MAX_FILE_SIZE - 1) file1))))"
    using assms(7) by (simp add: spec_total_build spec_windows_length)
  then have "main_similarity cs junk1 junk2 file1 file1 = Some 1"
    unfolding main_similarity_eq by (simp add: spec_score_self round_to_float_1)
  then show ?thesis using A(1) B(1) ab aa by blast
qed

theorem similarity_identity_witness:
  "(0::byte) \<in> set (text_abcabc @ [0]) \<and> N_GRAM \<le> length (c_str (text_abcabc @ [0])) \<and>
   (0::int) < 2 \<and> (2::int) < 2 ^ 31 \<and> (0::int) < 3 \<and> (3::int) < 2 ^ 31 \<and>
   N_GRAM \<le> length (normalize_string (c_str (take (MAX_FILE_SIZE - 1) [0x41, 0x62, 0x2C, 0x63, 0xE4]))) \<and>
   generate_ngrams True (text_abcabc @ [0]) (create_hash_table 2) = Some table_abcabc_2 \<and>
   generate_ngrams True (text_abcabc @ [0]) (create_hash_table 3) = Some table_abcabc_3 \<and>
   calculate_jaccard_similarity True table_abcabc_2 table_abcabc_3 = Some 1 \<and>
   calculate_jaccard_similarity True table_abcabc_2 table_abcabc_2 = Some 1 \<and>
   main_similarity True of_nat of_nat [0x41, 0x62, 0x2C, 0x63, 0xE4] [0x41, 0x62, 0x2C, 0x63, 0xE4] = Some 1"
proof -
  have g: "N_GRAM \<le> length (c_str (text_abcabc @ [0]))" by code_simp
  have t: "take (MAX_FILE_SIZE - 1) [0x41 :: byte, 0x62, 0x2C, 0x63, 0xE4] = [0x41, 0x62, 0x2C, 0x63, 0xE4]"
    by (simp add: MAX_FILE_SIZE_def)
  have "N_GRAM \<le> length (normalize_string (c_str [0x41 :: byte, 0x62, 0x2C, 0x63, 0xE4]))"
    by code_simp
  then have f: "N_GRAM \<le> length (normalize_string (c_str (take (MAX_FILE_SIZE - 1) [0x41 :: byte, 0x62, 0x2C, 0x63, 0xE4])))"
    unfolding t .
  from similarity_identity [OF example_hyps(1) g example_hyps(3,4,5,6) f, where cs = True
      and ?junk1.0 = of_nat and ?junk2.0 = of_nat]
  show ?thesis using example_hyps g f example_tables(1,3) example_scores(3,4) by simp
qed

section \<open>Normalizer: the claims\<close>

lemma not_high_iff: "c \<le> 0x7F \<longleftrightarrow> \<not> 0x80 \<le> (c :: byte)"
  by (auto simp: word_le_nat_alt)

lemma normalize_byte_spec: "filter keep_char [lower_char c] = spec_normalize_byte c"
proof (cases "0x41 \<le> c \<and> c \<le> 0x5A")
  case True
  then have "isalnum (c + 32)" using lower_alnum [of c] by (simp add: isalnum_def)
  then show ?thesis using True by (simp add: lower_char_def spec_normalize_byte_def keep_char_def)
next
  case False
  then show ?thesis
    by (auto simp: lower_char_def spec_normalize_byte_def keep_char_def high_bit_iff not_high_iff)
qed

lemma normalize_string_spec: "normalize_string s = spec_normalize s"
proof (induction s)
  case Nil show ?case by (simp add: normalize_string_def spec_normalize_def)
next
  case (Cons c s)
  have "normalize_string (c # s) = filter keep_char [lower_char c] @ normalize_string s"
    by (simp add: normalize_string_def)
  also have "\<dots> = spec_normalize_byte c @ spec_normalize s"
    unfolding normalize_byte_spec Cons.IH ..
  also have "\<dots> = spec_normalize (c # s)" by (simp add: spec_normalize_def)
  finally show ?case .
qed

text \<open>
  C6, as the code has it.  For every NUL-terminated input buffer, \<open>to_lower_case\<close> followed by
  \<open>remove_punctuation\<close> (the order of \<open>main\<close>) returns, and the string left in the buffer is
  the string of the input, that is its bytes before the first NUL byte, with each of these
  bytes treated as follows: \<open>A-Z\<close> mapped to its lowercase counterpart, any other byte up to
  0x7F kept exactly when it is an ASCII alphanumeric or a space, every byte from 0x80 kept as
  it is.  The bytes after the first NUL byte are no part of the normalized text.
\<close>

theorem normalization_spec:
  assumes "0 \<in> set buf"
  shows "\<exists>t u. to_lower_case buf = Some t \<and> remove_punctuation t = Some u \<and>
           c_str u = spec_normalize (c_str buf)"
  using normalize_pipeline [OF assms] by (auto simp: normalize_string_spec)

theorem normalization_spec_witness:
  "(0::byte) \<in> set [0x41, 0x62, 0x2C, 0x5A, 0x20, 0x39, 0x07, 0xC3, 0x7F, 0] \<and>
   to_lower_case [0x41, 0x62, 0x2C, 0x5A, 0x20, 0x39, 0x07, 0xC3, 0x7F, 0] =
     Some [0x61, 0x62, 0x2C, 0x7A, 0x20, 0x39, 0x07, 0xC3, 0x7F, 0] \<and>
   remove_punctuation [0x61, 0x62, 0x2C, 0x7A, 0x20, 0x39, 0x07, 0xC3, 0x7F, 0] =
     Some [0x61, 0x62, 0x7A, 0x20, 0x39, 0xC3, 0, 0xC3, 0x7F, 0] \<and>
   c_str [0x61, 0x62, 0x7A, 0x20, 0x39, 0xC3, 0, 0xC3, 0x7F, 0] = [0x61, 0x62, 0x7A, 0x20, 0x39, 0xC3] \<and>
   spec_normalize (c_str [0x41, 0x62, 0x2C, 0x5A, 0x20, 0x39, 0x07, 0xC3, 0x7F, 0]) =
     [0x61, 0x62, 0x7A, 0x20, 0x39, 0xC3]"
proof -
  have h: "(0::byte) \<in> set [0x41, 0x62, 0x2C, 0x5A, 0x20, 0x39, 0x07, 0xC3, 0x7F, 0]" by simp
  have e: "to_lower_case [0x41, 0x62, 0x2C, 0x5A, 0x20, 0x39, 0x07, 0xC3, 0x7F, 0] =
     Some [0x61, 0x62, 0x2C, 0x7A, 0x20, 0x39, 0x07, 0xC3, 0x7F, 0]"
   "remove_punctuation [0x61, 0x62, 0x2C, 0x7A, 0x20, 0x39, 0x07, 0xC3, 0x7F, 0] =
     Some [0x61, 0x62, 0x7A, 0x20, 0x39, 0xC3, 0, 0xC3, 0x7F, 0]"
   "c_str [0x61, 0x62, 0x7A, 0x20, 0x39, 0xC3, 0, 0xC3, 0x7F, 0] = [0x61, 0x62, 0x7A, 0x20, 0x39, 0xC3 :: byte]"
    by code_simp+
  from normalization_spec [OF h]
  have "spec_normalize (c_str [0x41, 0x62, 0x2C, 0x5A, 0x20, 0x39, 0x07, 0xC3, 0x7F, 0]) =
     [0x61, 0x62, 0x7A, 0x20, 0x39, 0xC3]"
    unfolding e by (auto simp: e)
  then show ?thesis using h e by simp
qed

text \<open>
  The claim as stated, for every byte of every input buffer, fails on the input bytes
  \<open>A\<close>, NUL, \<open>B\<close>, comma, \<open>C\<close> (followed by the terminating NUL that \<open>main\<close> stores): both
  loops stop at the first NUL, the bytes \<open>B\<close>, comma and \<open>C\<close> stay as they are, and the
  normalized text is \<open>a\<close>, where the rule of the claim applied to every byte gives \<open>abc\<close>.
\<close>

theorem normalization_every_byte_counterexample:
  "to_lower_case [0x41, 0, 0x42, 0x2C, 0x43, 0] = Some [0x61, 0, 0x42, 0x2C, 0x43, 0] \<and>
   remove_punctuation [0x61, 0, 0x42, 0x2C, 0x43, 0] = Some [0x61, 0, 0x42, 0x2C, 0x43, 0] \<and>
   c_str [0x61, 0, 0x42, 0x2C, 0x43, 0] = [0x61] \<and>
   spec_normalize [0x41, 0, 0x42, 0x2C, 0x43] = [0x61, 0x62, 0x63] \<and>
   c_str [0x61, 0, 0x42, 0x2C, 0x43, 0] \<noteq> spec_normalize [0x41, 0, 0x42, 0x2C, 0x43]"
  by code_simp

section \<open>Bytes after the first NUL\<close>

text \<open>
  C9. For every buffer that holds a NUL byte (\<open>pre\<close> is what precedes the first one, \<open>post\<close>
  what follows it), \<open>to_lower_case\<close>, \<open>remove_punctuation\<close> and \<open>generate_ngrams\<close> do what they
  do on the buffer that ends at that NUL: the first two leave \<open>post\<close> as it is and produce a
  string that does not depend on it, the third returns the same table; and the driver's score
  for a file with a NUL byte is its score for the part of the file before that byte.
\<close>

theorem bytes_after_nul_ignored:
  assumes "0 \<notin> set pre"
  shows "(\<exists>t. to_lower_case (pre @ 0 # post) = Some (t @ 0 # post) \<and>
              to_lower_case (pre @ [0]) = Some (t @ [0]) \<and> 0 \<notin> set t) \<and>
         (\<exists>u s. remove_punctuation (pre @ 0 # post) = Some (u @ 0 # s @ post) \<and>
                remove_punctuation (pre @ [0]) = Some (u @ 0 # s) \<and> 0 \<notin> set u) \<and>
         generate_ngrams cs (pre @ 0 # post) ht = generate_ngrams cs (pre @ [0]) ht \<and>
         main_similarity cs junk1 junk2 (pre @ 0 # post) file2 =
           main_similarity cs junk3 junk4 pre file2 \<and>
         main_similarity cs junk1 junk2 file1 (pre @ 0 # post) =
           main_similarity cs junk3 junk4 file1 pre"
proof -
  let ?l = "map lower_char pre"
  have zl: "0 \<notin> set ?l"
  proof
    assume "0 \<in> set ?l"
    then obtain x where x: "x \<in> set pre" "lower_char x = 0" by auto
    then have "x \<noteq> 0" using assms by auto
    then show False using x(2) lower_char_nonzero by blast
  qed
  have a: "\<exists>t. to_lower_case (pre @ 0 # post) = Some (t @ 0 # post) \<and>
              to_lower_case (pre @ [0]) = Some (t @ [0]) \<and> 0 \<notin> set t"
    using to_lower_case_eq [OF assms, of post] to_lower_case_eq [OF assms, of "[]"] zl by blast
  let ?f = "filter keep_char pre"
  have zf: "0 \<notin> set ?f" using assms by simp
  have "Suc (length ?f) \<le> length (pre @ [0])" by (simp add: le_imp_less_Suc)
  then have d: "drop (Suc (length ?f)) (pre @ 0 # post) = drop (Suc (length ?f)) (pre @ [0]) @ post"
    using drop_append [of "Suc (length ?f)" "pre @ [0]" post] by simp
  have b: "\<exists>u s. remove_punctuation (pre @ 0 # post) = Some (u @ 0 # s @ post) \<and>
                remove_punctuation (pre @ [0]) = Some (u @ 0 # s) \<and> 0 \<notin> set u"
    using remove_punctuation_eq [OF assms, of post] remove_punctuation_eq [OF assms, of "[]"] zf
    unfolding d by blast
  have c: "generate_ngrams cs (pre @ 0 # post) ht = generate_ngrams cs (pre @ [0]) ht"
    by (simp add: generate_ngrams_eq c_str_append_nul [OF assms])
  have ct: "c_str (take n (pre @ 0 # post)) = c_str (take n pre)" for n
    unfolding c_str_take c_str_append_nul [OF assms] c_str_id [OF assms] ..
  have e: "main_similarity cs junk1 junk2 (pre @ 0 # post) file2 =
           main_similarity cs junk3 junk4 pre file2"
    "main_similarity cs junk1 junk2 file1 (pre @ 0 # post) =
           main_similarity cs junk3 junk4 file1 pre"
    unfolding main_similarity_eq ct by (rule refl)+
  show ?thesis using a b c e by blast
qed

theorem bytes_after_nul_ignored_witness:
  "(0::byte) \<notin> set [0x41, 0x2C, 0x62, 0x63] \<and>
   to_lower_case [0x41, 0x2C, 0x62, 0x63, 0, 0x44, 0x2C, 0x65] =
     Some [0x61, 0x2C, 0x62, 0x63, 0, 0x44, 0x2C, 0x65] \<and>
   to_lower_case [0x41, 0x2C, 0x62, 0x63, 0] = Some [0x61, 0x2C, 0x62, 0x63, 0] \<and>
   remove_punctuation [0x41, 0x2C, 0x62, 0x63, 0, 0x44, 0x2C, 0x65] =
     Some [0x41, 0x62, 0x63, 0, 0, 0x44, 0x2C, 0x65] \<and>
   remove_punctuation [0x41, 0x2C, 0x62, 0x63, 0] = Some [0x41, 0x62, 0x63, 0, 0] \<and>
   generate_ngrams True [0x41, 0x2C, 0x62, 0x63, 0, 0x44, 0x2C, 0x65] (create_hash_table 2) =
     generate_ngrams True [0x41, 0x2C, 0x62, 0x63, 0] (create_hash_table 2) \<and>
   main_similarity True of_nat of_nat [0x41, 0x2C, 0x62, 0x63, 0, 0x44, 0x2C, 0x65] [0x61, 0x62, 0x63] =
     main_similarity True of_nat of_nat [0x41, 0x2C, 0x62, 0x63] [0x61, 0x62, 0x63] \<and>
   main_similarity True of_nat of_nat [0x61, 0x62, 0x63] [0x41, 0x2C, 0x62, 0x63, 0, 0x44, 0x2C, 0x65] =
     main_similarity True of_nat of_nat [0x61, 0x62, 0x63] [0x41, 0x2C, 0x62, 0x63]"
proof -
  have h: "(0::byte) \<notin> set [0x41, 0x2C, 0x62, 0x63]" by simp
  have e: "to_lower_case [0x41, 0x2C, 0x62, 0x63, 0, 0x44, 0x2C, 0x65] =
     Some [0x61, 0x2C, 0x62, 0x63, 0, 0x44, 0x2C, 0x65]"
   "to_lower_case [0x41, 0x2C, 0x62, 0x63, 0] = Some [0x61, 0x2C, 0x62, 0x63, 0]"
   "remove_punctuation [0x41, 0x2C, 0x62, 0x63, 0, 0x44, 0x2C, 0x65] =
     Some [0x41, 0x62, 0x63, 0, 0, 0x44, 0x2C, 0x65]"
   "remove_punctuation [0x41, 0x2C, 0x62, 0x63, 0] = Some [0x41, 0x62, 0x63, 0, 0]"
    by code_simp+
  show ?thesis
    using h e bytes_after_nul_ignored [OF h, where cs = True and post = "[0x44, 0x2C, 0x65]"
        and ht = "create_hash_table 2" and ?junk1.0 = of_nat and ?junk2.0 = of_nat
        and ?junk3.0 = of_nat and ?junk4.0 = of_nat
        and ?file1.0 = "[0x61, 0x62, 0x63]" and ?file2.0 = "[0x61, 0x62, 0x63]"]
    by simp
qed

section \<open>Reading the input files\<close>

text \<open>
  C8, as the code has it.  For every input file the driver reads at most
  \<open>MAX_FILE_SIZE - 1 = 999999\<close> bytes of content into the 1000000-byte array and stores the
  terminating NUL after them; what the file holds beyond its first 999999 bytes is dropped,
  and the driver goes on to produce a score whatever the lengths of the two files.
\<close>

theorem read_file_truncates:
  "length (fst (read_file junk file1)) = MAX_FILE_SIZE \<and>
   snd (read_file junk file1) = min (length file1) (MAX_FILE_SIZE - 1) \<and>
   take (snd (read_file junk file1)) (fst (read_file junk file1)) = take (MAX_FILE_SIZE - 1) file1 \<and>
   fst (read_file junk file1) ! snd (read_file junk file1) = 0 \<and>
   (\<exists>s. main_similarity cs junk junk2 file1 file2 = Some s) \<and>
   (\<exists>s. main_similarity cs junk2 junk file2 file1 = Some s)"
proof -
  define len where "len = min (length file1) (MAX_FILE_SIZE - 1)"
  have l: "len < MAX_FILE_SIZE" by (simp add: len_def MAX_FILE_SIZE_def)
  have t: "length (take len file1) = len" by (simp add: len_def)
  have r: "read_file junk file1 = (take len file1 @ 0 # map junk [Suc len..<MAX_FILE_SIZE], len)"
    unfolding read_file_eq len_def ..
  have "length (fst (read_file junk file1)) = MAX_FILE_SIZE"
    unfolding r fst_conv using l t by simp
  moreover have "take (snd (read_file junk file1)) (fst (read_file junk file1)) = take len file1"
    unfolding r fst_conv snd_conv using t by simp
  moreover have "take len file1 = take (MAX_FILE_SIZE - 1) file1"
    unfolding len_def by (rule take_min_length)
  moreover have "fst (read_file junk file1) ! snd (read_file junk file1) = 0"
    unfolding r fst_conv snd_conv using t by (simp add: nth_append)
  moreover have "snd (read_file junk file1) = min (length file1) (MAX_FILE_SIZE - 1)"
    unfolding r snd_conv len_def ..
  ultimately show ?thesis by (simp add: main_similarity_eq)
qed

theorem read_file_full_buffer_counterexample:
  "length (replicate 1000000 (0x61 :: byte)) \<le> MAX_FILE_SIZE \<and>
   snd (read_file of_nat (replicate 1000000 0x61)) = 999999 \<and>
   take (snd (read_file of_nat (replicate 1000000 0x61)))
        (fst (read_file of_nat (replicate 1000000 0x61))) \<noteq> replicate 1000000 0x61"
proof -
  have n: "length (replicate 1000000 (0x61 :: byte)) = 1000000" by (rule length_replicate)
  have s: "snd (read_file of_nat (replicate 1000000 (0x61 :: byte))) = 999999"
    unfolding read_file_eq snd_conv n by (simp add: MAX_FILE_SIZE_def)
  have "take (snd (read_file of_nat (replicate 1000000 (0x61 :: byte))))
        (fst (read_file of_nat (replicate 1000000 0x61))) \<noteq> replicate 1000000 0x61"
  proof
    assume "take (snd (read_file of_nat (replicate 1000000 (0x61 :: byte))))
        (fst (read_file of_nat (replicate 1000000 0x61))) = replicate 1000000 0x61"
    then have "length (take (snd (read_file of_nat (replicate 1000000 (0x61 :: byte))))
        (fst (read_file of_nat (replicate 1000000 0x61)))) = 1000000"
      by (simp only: n)
    then have "min (length (fst (read_file of_nat (replicate 1000000 (0x61 :: byte))))) 999999 = 1000000"
      by (simp only: length_take s)
    then show False by simp
  qed
  moreover have "length (replicate 1000000 (0x61 :: byte)) \<le> MAX_FILE_SIZE"
    unfolding n MAX_FILE_SIZE_def by simp
  ultimately show ?thesis using s by blast
qed

section \<open>The counters of the driver stay in range\<close>

text \<open>
  The buffers of \<open>main\<close> are arrays of \<open>MAX_FILE_SIZE\<close> bytes that hold a NUL.  For tables
  built from such buffers every count, the intersection and the sum computed by
  \<open>get_union_count\<close> are below \<open>2^24\<close>: no \<open>int\<close> overflows (all partial sums lie between 0
  and the final sum, the counts being positive) and the conversions to \<open>float\<close> are exact.
\<close>

lemma driver_counts_fit_int:
  assumes "0 \<in> set text1" and "0 \<in> set text2"
    and "length text1 \<le> MAX_FILE_SIZE" and "length text2 \<le> MAX_FILE_SIZE"
    and "0 < n1" and "n1 < 2 ^ 31" and "0 < n2" and "n2 < 2 ^ 31"
  shows "\<exists>A B i u.
     generate_ngrams cs text1 (create_hash_table n1) = Some A \<and>
     generate_ngrams cs text2 (create_hash_table n2) = Some B \<and>
     get_intersection_count cs A B = Some i \<and> get_union_count A B = Some u \<and>
     0 \<le> i \<and> i \<le> u \<and> u < 2 ^ 24 \<and>
     (\<forall>e \<in> set (entries A) \<union> set (entries B). 0 < node_count e \<and> node_count e < 2 ^ 24)"
proof -
  have len: "length (spec_windows N_GRAM (c_str t)) \<le> 999997"
    if t0: "0 \<in> set t" and tl: "length t \<le> MAX_FILE_SIZE" for t
  proof -
    obtain post where "t = c_str t @ 0 # post" using nul_split [OF t0] ..
    then have "length t = length (c_str t @ 0 # post)" by simp
    then have "length (c_str t) < MAX_FILE_SIZE" using tl by simp
    then show ?thesis by (simp add: spec_windows_length MAX_FILE_SIZE_def N_GRAM_def)
  qed
  have ent: "\<forall>e \<in> set (entries ht). 0 < node_count e \<and> node_count e < 2 ^ 24"
    if "ht_inv cs ht" "\<forall>k. shingle_count ht k = int (count_list (spec_windows N_GRAM (c_str t)) k)"
      "0 \<in> set t" "length t \<le> MAX_FILE_SIZE" for ht t
  proof
    fix e assume e: "e \<in> set (entries ht)"
    have d: "distinct (map node_key (entries ht))" using that(1) by (simp add: ht_inv_def)
    have "node_count e = int (count_list (spec_windows N_GRAM (c_str t)) (node_key e))"
      using key_count_distinct [OF d e] that(2) by (simp add: shingle_count_def)
    also have "\<dots> \<le> int (length (spec_windows N_GRAM (c_str t)))"
      using count_le_length [of "spec_windows N_GRAM (c_str t)"] by simp
    finally have "node_count e \<le> 999997" using len [OF that(3,4)] by linarith
    moreover have "0 < node_count e" using that(1) e by (simp add: ht_inv_def)
    ultimately show "0 < node_count e \<and> node_count e < 2 ^ 24" by simp
  qed
  from generate_ngrams_built [OF assms(1,5,6), of cs] obtain A where
    A: "generate_ngrams cs text1 (create_hash_table n1) = Some A" "ht_inv cs A"
      "\<forall>k. shingle_count A k = int (count_list (spec_windows N_GRAM (c_str text1)) k)"
      "total_count A = int (length (spec_windows N_GRAM (c_str text1)))"
    by blast
  from generate_ngrams_built [OF assms(2,7,8), of cs] obtain B where
    B: "generate_ngrams cs text2 (create_hash_table n2) = Some B" "ht_inv cs B"
      "\<forall>k. shingle_count B k = int (count_list (spec_windows N_GRAM (c_str text2)) k)"
      "total_count B = int (length (spec_windows N_GRAM (c_str text2)))"
    by blast
  note i = get_intersection_count_spec [OF A(2) B(2)]
  have sz: "length (ht_table A) = nat (ht_size A)" "length (ht_table B) = nat (ht_size B)"
    using A(2) B(2) by (simp_all add: ht_inv_def)
  note u = get_union_count_eq [OF sz]
  note b = spec_bounds [OF A(2) B(2)]
  have ta: "total_count A \<le> 999997" using A(4) len [OF assms(1,3)] by linarith
  have tb: "total_count B \<le> 999997" "0 \<le> total_count B" using B(4) len [OF assms(2,4)] by linarith+
  have "spec_intersection (shingle_set_of A) (shingle_set_of B) \<le> total_count A + total_count B"
    using b(2) tb(2) by (simp add: total_count_spec [OF A(2)])
  moreover have "total_count A + total_count B < 2 ^ 24" using ta tb by simp
  moreover note ent [OF A(2,3) assms(1,3)] ent [OF B(2,3) assms(2,4)]
  ultimately show ?thesis using A(1) B(1) i u b(1) by blast
qed

end

